theory Spec2Isabelle
  imports Main "HOL-Library.AList"
begin

section \<open>Python strings\<close>

text \<open>
  Text is modelled as \<open>string\<close> (a list of 8-bit characters) and read as ASCII: the
  whitespace, case and digit tests below are those of Python's \<open>str\<close> methods on the
  ASCII range.
\<close>

definition is_space :: "char \<Rightarrow> bool" where
  \<comment> \<open>\<open>str.isspace\<close> on ASCII: TAB, LF, VT, FF, CR, FS, GS, RS, US and the blank.\<close>
  "is_space c = (c \<in> set [CHR 0x09, CHR 0x0A, CHR 0x0B, CHR 0x0C, CHR 0x0D,
                            CHR 0x1C, CHR 0x1D, CHR 0x1E, CHR 0x1F, CHR 0x20])"

definition digits :: string where
  "digits = ''0123456789''"

definition ascii_lowercase :: string where
  "ascii_lowercase = ''abcdefghijklmnopqrstuvwxyz''"

definition ascii_uppercase :: string where
  "ascii_uppercase = ''ABCDEFGHIJKLMNOPQRSTUVWXYZ''"

definition is_digit :: "char \<Rightarrow> bool" where
  "is_digit c = (c \<in> set digits)"

definition digit_val :: "char \<Rightarrow> nat" where
  \<comment> \<open>the value of a digit character.\<close>
  "digit_val c = length (takeWhile (\<lambda>d. d \<noteq> c) digits)"

definition digit_char :: "nat \<Rightarrow> char" where
  \<comment> \<open>the character of a digit \<open>d < 10\<close>.\<close>
  "digit_char d = digits ! d"

definition is_word :: "char \<Rightarrow> bool" where
  \<comment> \<open>the class \<open>\w\<close>: letters, digits and the underscore.\<close>
  "is_word c = (c \<in> set (ascii_lowercase @ ascii_uppercase @ digits @ ''_''))"

definition lower_char :: "char \<Rightarrow> char" where
  "lower_char c = (case map_of (zip ascii_uppercase ascii_lowercase) c of Some l \<Rightarrow> l | None \<Rightarrow> c)"

definition lower :: "string \<Rightarrow> string" where
  "lower s = map lower_char s"

definition lstrip :: "string \<Rightarrow> string" where
  "lstrip s = dropWhile is_space s"

definition rstrip :: "string \<Rightarrow> string" where
  "rstrip s = rev (dropWhile is_space (rev s))"

definition strip :: "string \<Rightarrow> string" where
  "strip s = rstrip (lstrip s)"

definition rstrip_chr :: "char \<Rightarrow> string \<Rightarrow> string" where
  \<comment> \<open>\<open>s.rstrip(c)\<close> for a one-character argument.\<close>
  "rstrip_chr c s = rev (dropWhile (\<lambda>x. x = c) (rev s))"

fun startswith :: "string \<Rightarrow> string \<Rightarrow> bool" where
  "startswith s [] = True"
| "startswith [] (p # ps) = False"
| "startswith (c # cs) (p # ps) = (c = p \<and> startswith cs ps)"

definition endswith :: "string \<Rightarrow> string \<Rightarrow> bool" where
  "endswith s p = startswith (rev s) (rev p)"

definition startswith_any :: "string \<Rightarrow> string list \<Rightarrow> bool" where
  \<comment> \<open>\<open>s.startswith(t)\<close> for a tuple \<open>t\<close> of prefixes.\<close>
  "startswith_any s ps = list_ex (startswith s) ps"

fun contains :: "string \<Rightarrow> string \<Rightarrow> bool" where
  \<comment> \<open>\<open>k in s\<close>: \<open>k\<close> occurs in \<open>s\<close> as a contiguous substring.\<close>
  "contains [] k = (k = [])"
| "contains (c # cs) k = (startswith (c # cs) k \<or> contains cs k)"

function replace :: "string \<Rightarrow> string \<Rightarrow> string \<Rightarrow> string" where
  \<comment> \<open>\<open>s.replace(old, new)\<close> for a non-empty \<open>old\<close>: leftmost occurrences, not overlapping.\<close>
  "replace old new [] = []"
| "replace old new (c # cs) =
     (if old \<noteq> [] \<and> startswith (c # cs) old
      then new @ replace old new (drop (length old) (c # cs))
      else c # replace old new cs)"
  by pat_completeness auto
termination
  by (relation "measure (\<lambda>(old, new, s). length s)") auto

fun split_on :: "char \<Rightarrow> string \<Rightarrow> string list" where
  \<comment> \<open>\<open>s.split(sep)\<close> for a one-character separator: never an empty list.\<close>
  "split_on sep [] = [[]]"
| "split_on sep (c # cs) =
     (if c = sep then [] # split_on sep cs
      else (case split_on sep cs of [] \<Rightarrow> [[c]] | p # ps \<Rightarrow> (c # p) # ps))"

definition split_first :: "char \<Rightarrow> string \<Rightarrow> string \<times> string" where
  \<comment> \<open>\<open>s.split(sep, 1)\<close> on a string that holds the separator: the text before the first
      separator and the text after it.\<close>
  "split_first sep s = (takeWhile (\<lambda>c. c \<noteq> sep) s, drop 1 (dropWhile (\<lambda>c. c \<noteq> sep) s))"

function str_nat :: "nat \<Rightarrow> string" where
  \<comment> \<open>\<open>str(n)\<close> for a non-negative integer.\<close>
  "str_nat n = (if n < 10 then [digit_char n] else str_nat (n div 10) @ [digit_char (n mod 10)])"
  by pat_completeness auto
termination
  by (relation "measure id") auto

declare str_nat.simps [simp del]

definition str_int :: "int \<Rightarrow> string" where
  "str_int i = (if i < 0 then CHR ''-'' # str_nat (nat (- i)) else str_nat (nat i))"

datatype error =
    NoSchemaFiles        \<comment> \<open>\<open>SystemExit("No .sql schema files found in --schema-dir.")\<close>\<close>
  | DuplicateKeySpaceExhausted  \<comment> \<open>\<open>RuntimeError("Could not generate a unique composite key ...")\<close>\<close>
  | KeyError string      \<comment> \<open>a dictionary read at a key it does not hold\<close>
  | ValueError           \<comment> \<open>\<open>int(s)\<close> on text that is no integer literal\<close>
  | DecimalOverflow      \<comment> \<open>\<open>decimal.Overflow\<close>, trapped by the default context\<close>
  | ZeroDivision         \<comment> \<open>\<open>decimal.DivisionByZero\<close>, trapped by the default context\<close>

fun int_body :: "nat \<Rightarrow> string \<Rightarrow> nat option" where
  \<comment> \<open>the digits of an integer literal after its first digit; one underscore is allowed
      between two digits.\<close>
  "int_body acc [] = Some acc"
| "int_body acc (c # cs) =
     (if is_digit c then int_body (10 * acc + digit_val c) cs
      else if c = CHR ''_'' then
        (case cs of
           [] \<Rightarrow> None
         | d # ds \<Rightarrow> if is_digit d then int_body (10 * acc + digit_val d) ds else None)
      else None)"

definition int_digits :: "string \<Rightarrow> nat option" where
  "int_digits s = (case s of [] \<Rightarrow> None | c # cs \<Rightarrow> if is_digit c then int_body (digit_val c) cs else None)"

definition int_space :: "char \<Rightarrow> bool" where
  \<comment> \<open>the whitespace \<open>int\<close> skips around a literal: TAB, LF, VT, FF, CR and the blank.
      The separators FS, GS, RS and US, which \<open>str.strip\<close> removes, are not among them.\<close>
  "int_space c = (c \<in> set [CHR 0x09, CHR 0x0A, CHR 0x0B, CHR 0x0C, CHR 0x0D, CHR 0x20])"

definition max_str_digits :: int where
  \<comment> \<open>\<open>sys.int_max_str_digits\<close>, at its default.\<close>
  "max_str_digits = 4300"

definition py_int :: "string \<Rightarrow> error + int" where
  \<comment> \<open>\<open>int(s)\<close>: surrounding whitespace, an optional sign, decimal digits; a literal of
      more than \<open>max_str_digits\<close> digits is refused.\<close>
  "py_int s =
     (let t = rev (dropWhile int_space (rev (dropWhile int_space s)));
          (neg, body) = (case t of
              [] \<Rightarrow> (False, t)
            | c # r \<Rightarrow> if c = CHR ''-'' then (True, r) else if c = CHR ''+'' then (False, r) else (False, t))
      in if max_str_digits < int (length (filter is_digit body)) then Inl ValueError
         else case int_digits body of
                None \<Rightarrow> Inl ValueError
              | Some n \<Rightarrow> Inr (if neg then - int n else int n))"

section \<open>The random source\<close>

text \<open>
  The process-wide random source is an oracle: an infinite sequence of raw draws, read
  from the front. Every library call that draws randomness takes its outcome from the
  next draws, so a run is a function of the oracle and a statement for all oracles is a
  statement about all runs.
\<close>

type_synonym rng = "nat \<Rightarrow> nat"

definition draw :: "rng \<Rightarrow> nat \<times> rng" where
  "draw g = (g 0, \<lambda>i. g (Suc i))"

definition randint :: "int \<Rightarrow> int \<Rightarrow> rng \<Rightarrow> int \<times> rng" where
  \<comment> \<open>\<open>random.randint(lo, hi)\<close> for \<open>lo \<le> hi\<close> (every call below has \<open>lo \<le> hi\<close>): some
      integer of the closed interval, chosen by the next draw.\<close>
  "randint lo hi g = (let (r, g') = draw g in (lo + int (r mod nat (hi - lo + 1)), g'))"

definition ascii_letters :: string where
  "ascii_letters = ascii_lowercase @ ascii_uppercase"

fun random_letters :: "nat \<Rightarrow> rng \<Rightarrow> string \<times> rng" where
  "random_letters 0 g = ([], g)"
| "random_letters (Suc n) g =
     (let (r, g1) = draw g; (cs, g2) = random_letters n g1
      in (ascii_letters ! (r mod 52) # cs, g2))"

definition pystr :: "int \<Rightarrow> int \<Rightarrow> rng \<Rightarrow> string \<times> rng" where
  \<comment> \<open>Faker's \<open>pystr(min_chars, max_chars)\<close>: a length drawn by \<open>randint\<close>, then that
      many random letters.\<close>
  "pystr min_chars max_chars g =
     (let (n, g1) = randint min_chars max_chars g in random_letters (nat n) g1)"

section \<open>Fixed-point decimals\<close>

text \<open>
  \<open>decimal.Decimal\<close> under the default context: precision 28, rounding to nearest with
  ties to even, exponents up to \<open>Emax = 999999\<close>, overflow and division by zero trapped.
  The program only builds finite decimals that are not negative, so a decimal is a
  coefficient and an exponent and denotes \<open>coeff * 10 ^ expo\<close>.
\<close>

record dec =
  coeff :: nat
  expo :: int

definition ndigits :: "nat \<Rightarrow> nat" where
  \<comment> \<open>the number of digits of the coefficient (one for zero).\<close>
  "ndigits n = length (str_nat n)"

definition prec :: int where
  "prec = 28"

definition Emax :: int where
  "Emax = 999999"

definition Emin :: int where
  "Emin = - 999999"

definition Etiny :: int where
  "Etiny = Emin - prec + 1"

definition Etop :: int where
  "Etop = Emax - prec + 1"

definition round_half_even :: "nat \<Rightarrow> nat \<Rightarrow> nat" where
  \<comment> \<open>the coefficient \<open>c\<close> without its \<open>k\<close> lowest digits, rounded to nearest, ties to even.\<close>
  "round_half_even c k =
     (let q = c div 10 ^ k; r = c mod 10 ^ k
      in if 2 * r > 10 ^ k \<or> (2 * r = 10 ^ k \<and> odd q) then q + 1 else q)"

definition dec_fix :: "dec \<Rightarrow> error + dec" where
  \<comment> \<open>\<open>Decimal._fix(context)\<close>: round the result of an operation to the context.\<close>
  "dec_fix d =
     (if coeff d = 0 then Inr \<lparr>coeff = 0, expo = min (max (expo d) Etiny) Emax\<rparr>
      else
        let len = int (ndigits (coeff d)); exp_min0 = len + expo d - prec
        in if exp_min0 > Etop then Inl DecimalOverflow
           else
             let exp_min = max exp_min0 Etiny
             in if expo d < exp_min then
                  let digits = len + expo d - exp_min;
                      c1 = (if digits < 0 then round_half_even 1 1
                            else round_half_even (coeff d) (nat (exp_min - expo d)));
                      (c2, e2) = (if int (ndigits c1) > prec then (c1 div 10, exp_min + 1)
                                  else (c1, exp_min))
                  in if e2 > Etop then Inl DecimalOverflow else Inr \<lparr>coeff = c2, expo = e2\<rparr>
                else Inr d)"

definition dec_of_int :: "int \<Rightarrow> dec" where
  \<comment> \<open>\<open>Decimal(n)\<close> for an integer \<open>n \<ge> 0\<close>: exact, whatever the number of digits.\<close>
  "dec_of_int n = \<lparr>coeff = nat n, expo = 0\<rparr>"

definition dec_pow10 :: "int \<Rightarrow> error + dec" where
  \<comment> \<open>\<open>Decimal(10) ** scale\<close> for an integer \<open>scale > 0\<close>: the exact power, written with at
      most \<open>prec + 1\<close> digits, then rounded to the context.\<close>
  "dec_pow10 scale =
     (let zeros = min scale prec in dec_fix \<lparr>coeff = 10 ^ nat zeros, expo = scale - zeros\<rparr>)"

function strip_zeros :: "nat \<Rightarrow> int \<Rightarrow> int \<Rightarrow> nat \<times> int" where
  \<comment> \<open>\<open>while exp < ideal_exp and coeff % 10 == 0: coeff //= 10; exp += 1\<close>\<close>
  "strip_zeros c e ideal =
     (if e < ideal \<and> c mod 10 = 0 then strip_zeros (c div 10) (e + 1) ideal else (c, e))"
  by pat_completeness auto
termination
  by (relation "measure (\<lambda>(c, e, ideal). nat (ideal - e))") auto

declare strip_zeros.simps [simp del]

definition dec_div :: "dec \<Rightarrow> dec \<Rightarrow> error + dec" where
  \<comment> \<open>\<open>a / b\<close>: the quotient to \<open>prec + 1\<close> digits with a sticky last digit when it is
      inexact, else the exact quotient brought as close to the ideal exponent as its
      trailing zeros allow; then rounded to the context.\<close>
  "dec_div a b =
     (if coeff b = 0 then Inl ZeroDivision
      else if coeff a = 0 then dec_fix \<lparr>coeff = 0, expo = expo a - expo b\<rparr>
      else
        let shift = int (ndigits (coeff b)) - int (ndigits (coeff a)) + prec + 1;
            e = expo a - expo b - shift;
            (q, r) = (if shift \<ge> 0
                      then ((coeff a * 10 ^ nat shift) div coeff b,
                            (coeff a * 10 ^ nat shift) mod coeff b)
                      else (coeff a div (coeff b * 10 ^ nat (- shift)),
                            coeff a mod (coeff b * 10 ^ nat (- shift))))
        in if r \<noteq> 0 then dec_fix \<lparr>coeff = (if q mod 5 = 0 then q + 1 else q), expo = e\<rparr>
           else (let (q', e') = strip_zeros q e (expo a - expo b)
                 in dec_fix \<lparr>coeff = q', expo = e'\<rparr>))"

definition dec_add :: "dec \<Rightarrow> dec \<Rightarrow> error + dec" where
  \<comment> \<open>\<open>a + b\<close>: the exact sum at the smaller exponent, rounded to the context.\<close>
  "dec_add a b =
     (let e = min (expo a) (expo b)
      in dec_fix \<lparr>coeff = coeff a * 10 ^ nat (expo a - e) + coeff b * 10 ^ nat (expo b - e),
               expo = e\<rparr>)"

definition dec_eq :: "dec \<Rightarrow> dec \<Rightarrow> bool" where
  \<comment> \<open>\<open>a == b\<close>: equality of the numbers denoted, whatever the exponents.\<close>
  "dec_eq a b =
     (let e = min (expo a) (expo b)
      in coeff a * 10 ^ nat (expo a - e) = coeff b * 10 ^ nat (expo b - e))"

definition dec_str :: "dec \<Rightarrow> string" where
  \<comment> \<open>\<open>str(d)\<close>: positional notation when the exponent is not positive and the number is
      at least \<open>10 ^ -6\<close> (or zero with such an exponent), scientific notation otherwise.\<close>
  "dec_str d =
     (let ds = str_nat (coeff d);
          leftdigits = expo d + int (length ds);
          dotplace = (if expo d \<le> 0 \<and> leftdigits > - 6 then leftdigits else 1);
          intpart = (if dotplace \<le> 0 then ''0''
                     else if dotplace \<ge> int (length ds)
                     then ds @ replicate (nat (dotplace - int (length ds))) CHR ''0''
                     else take (nat dotplace) ds);
          fracpart = (if dotplace \<le> 0 then ''.'' @ replicate (nat (- dotplace)) CHR ''0'' @ ds
                      else if dotplace \<ge> int (length ds) then []
                      else ''.'' @ drop (nat dotplace) ds);
          ex = (if leftdigits = dotplace then []
                else ''E'' @ (if leftdigits - dotplace < 0 then ''-'' else ''+'')
                     @ str_nat (nat \<bar>leftdigits - dotplace\<bar>))
      in intpart @ fracpart @ ex)"

section \<open>Values and the value generator\<close>

datatype pydate = Date nat nat nat
  \<comment> \<open>\<open>datetime.date\<close>: year, month, day.\<close>

datatype pytime = Time nat nat nat
  \<comment> \<open>a naive \<open>datetime.time\<close>: hour, minute, second. The microsecond is left out: it
      is 0 in every time the program builds.\<close>

datatype pydatetime = DateTime nat nat nat nat nat nat nat
  \<comment> \<open>a naive \<open>datetime.datetime\<close>: year, month, day, hour, minute, second,
      microsecond. Two of them are equal when all seven fields are.\<close>

text \<open>
  The values a row holds. Binary floating point is not modelled: a float is a value of
  an abstract type \<open>'f\<close>, whose equality is the equality of floats.
\<close>

datatype 'f pyval =
    VNone
  | VBool bool
  | VInt int
  | VFloat 'f
  | VDecimal dec
  | VDateTime pydatetime
  | VDate pydate
  | VTime pytime
  | VStr string

text \<open>
  The library calls whose results the program does not constrain are parameters: each
  maps the raw draw it consumes to the value it returns.
\<close>

record 'f env =
  random_uniform :: "nat \<Rightarrow> 'f"
    \<comment> \<open>\<open>random.uniform(0, 1_000_000)\<close>\<close>
  uuid_uuid4 :: "nat \<Rightarrow> string"
    \<comment> \<open>\<open>str(uuid.uuid4())\<close>\<close>
  fake_date_object :: "nat \<Rightarrow> pydate"
    \<comment> \<open>\<open>fake.date_object()\<close>\<close>
  fake_date_time :: "nat \<Rightarrow> pydatetime"
    \<comment> \<open>\<open>fake.date_time()\<close>\<close>
  fake_paragraph :: "nat \<Rightarrow> string"
    \<comment> \<open>\<open>fake.paragraph(nb_sentences=2)\<close>\<close>
  fake_word :: "nat \<Rightarrow> string"
    \<comment> \<open>\<open>fake.word()\<close>\<close>

record col_def =
  name :: string
  type :: string
  lens :: string

definition int_between :: "int \<Rightarrow> rng \<Rightarrow> 'f pyval \<times> rng" where
  "int_between max_value g = (let (n, g') = randint 0 max_value g in (VInt n, g'))"

definition decimal_random :: "int \<Rightarrow> int \<Rightarrow> rng \<Rightarrow> error + dec \<times> rng" where
  "decimal_random precision0 scale0 g =
     (let precision = (if precision0 \<le> 0 then 10 else precision0);
          scale = (if scale0 < 0 then 0 else scale0);
          left = max 0 (precision - scale);
          max_whole = (if left > 0 then 10 ^ nat left - 1 else 0);
          (whole, g1) = (if left > 0 then randint 0 max_whole g else (0, g));
          (frac, g2) = (if scale > 0 then randint 0 (10 ^ nat scale - 1) g1 else (0, g1));
          val = dec_of_int whole
      in if scale > 0 then
           (case dec_pow10 scale of
              Inl e \<Rightarrow> Inl e
            | Inr ten_s \<Rightarrow>
                (case dec_div (dec_of_int frac) ten_s of
                   Inl e \<Rightarrow> Inl e
                 | Inr q \<Rightarrow>
                     (case dec_add val q of
                        Inl e \<Rightarrow> Inl e
                      | Inr v \<Rightarrow> Inr (v, g2))))
         else Inr (val, g2))"

definition char_exact :: "int \<Rightarrow> rng \<Rightarrow> string \<times> rng" where
  "char_exact n0 g = (let n = max 1 (min n0 255) in pystr n n g)"

definition char_up_to :: "int \<Rightarrow> rng \<Rightarrow> string \<times> rng" where
  "char_up_to n0 g = (let n = max 1 (min n0 255) in pystr 1 n g)"

definition any_in :: "string list \<Rightarrow> string \<Rightarrow> bool" where
  \<comment> \<open>\<open>any(k in t for k in ks)\<close>\<close>
  "any_in ks t = list_ex (contains t) ks"

definition t_norm :: "col_def \<Rightarrow> string" where
  \<comment> \<open>the normalized type string of a column.\<close>
  "t_norm c =
     replace ''double precision'' ''float8''
       (replace ''character varying'' ''varchar'' (lower (strip (type c))))"

definition numeric_ps :: "string \<Rightarrow> int \<times> int" where
  \<comment> \<open>precision and scale from the length spec; any text that is no integer resets both
      to the defaults.\<close>
  "numeric_ps l =
     (if l = [] then (10, 0)
      else
        let parts = split_on CHR '','' l
        in case py_int (hd parts) of
             Inl e \<Rightarrow> (10, 0)
           | Inr p \<Rightarrow>
               if length parts > 1 then
                 (case py_int (parts ! 1) of Inl e \<Rightarrow> (10, 0) | Inr s \<Rightarrow> (p, s))
               else (p, 0))"

definition first_len :: "string \<Rightarrow> int \<Rightarrow> error + int" where
  \<comment> \<open>\<open>int(lens.split(',')[0]) if lens else d\<close>\<close>
  "first_len l d = (if l = [] then Inr d else py_int (hd (split_on CHR '','' l)))"

definition generate_random :: "'f env \<Rightarrow> col_def \<Rightarrow> rng \<Rightarrow> error + 'f pyval \<times> rng" where
  "generate_random env c g =
     (let t = t_norm c; l = strip (lens c)
      in if any_in [''bigint'', ''int8''] t then Inr (int_between 9000000000 g)
         else if any_in [''smallint'', ''int2''] t then Inr (int_between 32000 g)
         else if any_in [''integer'', ''int'', ''int4''] t then Inr (int_between 1000000 g)
         else if contains t ''numeric'' \<or> contains t ''decimal'' then
           (let (p, s) = numeric_ps l
            in case decimal_random p s g of
                 Inl e \<Rightarrow> Inl e
               | Inr (d, g') \<Rightarrow> Inr (VDecimal d, g'))
         else if any_in [''float'', ''double'', ''real''] t then
           (let (r, g') = draw g in Inr (VFloat (random_uniform env r), g'))
         else if contains t ''uuid'' then
           (let (r, g') = draw g in Inr (VStr (uuid_uuid4 env r), g'))
         else if contains t ''bool'' then
           (let (i, g') = randint 0 1 g in Inr (VBool ([True, False] ! nat i), g'))
         else if strip t = ''date'' then
           (let (r, g') = draw g in Inr (VDate (fake_date_object env r), g'))
         else if contains t ''timestamp'' then
           (let (r, g') = draw g in Inr (VDateTime (fake_date_time env r), g'))
         else if strip t = ''time'' \<or> startswith t ''time '' then
           (let (h, g1) = randint 0 23 g; (m, g2) = randint 0 59 g1; (s, g3) = randint 0 59 g2
            in Inr (VTime (Time (nat h) (nat m) (nat s)), g3))
         else if contains t ''varchar'' \<or> contains t ''nvarchar'' \<or> contains t ''varying'' then
           (case first_len l 32 of
              Inl e \<Rightarrow> Inl e
            | Inr max_len \<Rightarrow> (let (s, g') = char_up_to max_len g in Inr (VStr s, g')))
         else if contains t ''bpchar'' \<or> startswith t ''char'' then
           (case first_len l 1 of
              Inl e \<Rightarrow> Inl e
            | Inr n \<Rightarrow> (let (s, g') = char_exact n g in Inr (VStr s, g')))
         else if t \<in> set [''text'', ''json'', ''jsonb''] then
           (let (r, g') = draw g in Inr (VStr (fake_paragraph env r), g'))
         else (let (r, g') = draw g in Inr (VStr (fake_word env r), g')))"

section \<open>SQL literals\<close>

definition zfill :: "nat \<Rightarrow> nat \<Rightarrow> string" where
  \<comment> \<open>\<open>"%0wd" % n\<close>: the decimal digits of \<open>n\<close>, padded with zeros on the left to width \<open>w\<close>.\<close>
  "zfill w n = replicate (w - length (str_nat n)) CHR ''0'' @ str_nat n"

fun date_isoformat :: "pydate \<Rightarrow> string" where
  "date_isoformat (Date y m d) = zfill 4 y @ ''-'' @ zfill 2 m @ ''-'' @ zfill 2 d"

fun time_isoformat :: "pytime \<Rightarrow> string" where
  \<comment> \<open>\<open>t.isoformat(timespec='seconds')\<close> of a naive time.\<close>
  "time_isoformat (Time h m s) = zfill 2 h @ '':'' @ zfill 2 m @ '':'' @ zfill 2 s"

fun datetime_isoformat :: "char \<Rightarrow> pydatetime \<Rightarrow> string" where
  \<comment> \<open>\<open>dt.isoformat(sep=sep, timespec='seconds')\<close> of a naive date-time.\<close>
  "datetime_isoformat sep (DateTime y mo d h mi s us) =
     date_isoformat (Date y mo d) @ [sep] @ time_isoformat (Time h mi s)"

definition quote_chr :: char where
  \<comment> \<open>the single quote.\<close>
  "quote_chr = CHR 0x27"

fun to_sql_literal :: "('f \<Rightarrow> string) \<Rightarrow> 'f pyval \<Rightarrow> string" where
  \<comment> \<open>\<open>float_str\<close> is \<open>str\<close> on floats.\<close>
  "to_sql_literal float_str VNone = ''NULL''"
| "to_sql_literal float_str (VBool b) = (if b then ''TRUE'' else ''FALSE'')"
| "to_sql_literal float_str (VInt i) = str_int i"
| "to_sql_literal float_str (VFloat x) = float_str x"
| "to_sql_literal float_str (VDecimal d) = dec_str d"
| "to_sql_literal float_str (VDateTime dt) = [quote_chr] @ datetime_isoformat CHR '' '' dt @ [quote_chr]"
| "to_sql_literal float_str (VDate d) = [quote_chr] @ date_isoformat d @ [quote_chr]"
| "to_sql_literal float_str (VTime t) = [quote_chr] @ time_isoformat t @ [quote_chr]"
| "to_sql_literal float_str (VStr s) =
     [quote_chr] @ replace [quote_chr] [quote_chr, quote_chr] s @ [quote_chr]"

section \<open>Regular expressions\<close>

text \<open>
  The two patterns of the parser are written as syntax trees and run by a backtracking
  matcher with the priorities of Python's \<open>re\<close>: a repetition is greedy, an option is
  tried before it is skipped, and the first path that succeeds is the match. The matcher
  returns every way to match from a position, best first, as the position reached and
  the groups captured.
\<close>

datatype cclass =
    CChar char   \<comment> \<open>one character, compared ignoring case (\<open>re.IGNORECASE\<close>)\<close>
  | CWord        \<comment> \<open>\<open>\w\<close>\<close>
  | CSpace       \<comment> \<open>\<open>\s\<close>\<close>
  | CDigit       \<comment> \<open>\<open>\d\<close>\<close>

fun in_class :: "char \<Rightarrow> cclass \<Rightarrow> bool" where
  "in_class c (CChar x) = (lower_char c = lower_char x)"
| "in_class c CWord = is_word c"
| "in_class c CSpace = is_space c"
| "in_class c CDigit = is_digit c"

datatype regex =
    AnyOf "cclass list"      \<comment> \<open>one character of a class\<close>
  | NoneOf "cclass list"     \<comment> \<open>one character outside a class: \<open>[^...]\<close>\<close>
  | Seq regex regex
  | Opt regex                \<comment> \<open>\<open>r?\<close>\<close>
  | Star regex               \<comment> \<open>\<open>r*\<close>\<close>
  | Plus regex               \<comment> \<open>\<open>r+\<close>\<close>
  | Group string regex       \<comment> \<open>\<open>(?P<name>r)\<close>\<close>
  | Bos                      \<comment> \<open>\<open>^\<close>\<close>
  | Eos                      \<comment> \<open>\<open>$\<close>: the end of the text, or just before a final newline\<close>

type_synonym mstate = "nat \<times> (string \<times> string) list"

fun star_iter :: "(mstate \<Rightarrow> mstate list) \<Rightarrow> nat \<Rightarrow> mstate \<Rightarrow> mstate list" where
  \<comment> \<open>greedy repetition of a step that consumes text: one more round first, then stop.\<close>
  "star_iter step 0 st = [st]"
| "star_iter step (Suc n) st =
     concat (map (\<lambda>st'. if fst st < fst st' then star_iter step n st' else []) (step st)) @ [st]"

fun ms :: "string \<Rightarrow> regex \<Rightarrow> mstate \<Rightarrow> mstate list" where
  "ms s (AnyOf cs) (i, gs) = (if i < length s \<and> list_ex (in_class (s ! i)) cs then [(Suc i, gs)] else [])"
| "ms s (NoneOf cs) (i, gs) = (if i < length s \<and> \<not> list_ex (in_class (s ! i)) cs then [(Suc i, gs)] else [])"
| "ms s (Seq a b) st = concat (map (ms s b) (ms s a st))"
| "ms s (Opt a) st = ms s a st @ [st]"
| "ms s (Star a) st = star_iter (ms s a) (length s) st"
| "ms s (Plus a) st = concat (map (star_iter (ms s a) (length s)) (ms s a st))"
| "ms s (Group n a) (i, gs) = map (\<lambda>(j, gs'). (j, (n, take (j - i) (drop i s)) # gs')) (ms s a (i, gs))"
| "ms s Bos (i, gs) = (if i = 0 then [(i, gs)] else [])"
| "ms s Eos (i, gs) = (if i = length s \<or> (Suc i = length s \<and> s ! i = CHR 0x0A) then [(i, gs)] else [])"

definition re_match :: "regex \<Rightarrow> string \<Rightarrow> (string \<times> string) list option" where
  \<comment> \<open>\<open>r.match(s)\<close>: the groups of the match at the start of \<open>s\<close>.\<close>
  "re_match r s = (case ms s r (0, []) of [] \<Rightarrow> None | (j, gs) # rest \<Rightarrow> Some gs)"

fun search_from :: "regex \<Rightarrow> string \<Rightarrow> nat list \<Rightarrow> (string \<times> string) list option" where
  "search_from r s [] = None"
| "search_from r s (i # is) = (case ms s r (i, []) of [] \<Rightarrow> search_from r s is | (j, gs) # rest \<Rightarrow> Some gs)"

definition re_search :: "regex \<Rightarrow> string \<Rightarrow> (string \<times> string) list option" where
  \<comment> \<open>\<open>r.search(s)\<close>: the groups of the leftmost match.\<close>
  "re_search r s = search_from r s [0 ..< Suc (length s)]"

definition group :: "(string \<times> string) list \<Rightarrow> string \<Rightarrow> string" where
  \<comment> \<open>\<open>m.group(n) or ''\<close>\<close>
  "group gs n = (case map_of gs n of None \<Rightarrow> [] | Some t \<Rightarrow> t)"

definition lits :: "string \<Rightarrow> regex list" where
  "lits s = map (\<lambda>c. AnyOf [CChar c]) s"

definition seqs :: "regex list \<Rightarrow> regex" where
  \<comment> \<open>the concatenation of a non-empty list of patterns.\<close>
  "seqs rs = foldr Seq (butlast rs) (last rs)"

definition table_re :: regex where
  \<comment> \<open>\<open>CREATE\s+TABLE\s+(?:IF\s+NOT\s+EXISTS\s+)?(?:(?P<schema>"?\w+"?)\.)?"?(?P<name>\w+)"?\<close>\<close>
  "table_re =
     seqs (lits ''CREATE'' @ [Plus (AnyOf [CSpace])] @ lits ''TABLE'' @ [Plus (AnyOf [CSpace]),
       Opt (seqs (lits ''IF'' @ [Plus (AnyOf [CSpace])] @ lits ''NOT'' @ [Plus (AnyOf [CSpace])]
                  @ lits ''EXISTS'' @ [Plus (AnyOf [CSpace])])),
       Opt (seqs [Group ''schema''
                    (seqs [Opt (AnyOf [CChar CHR 0x22]), Plus (AnyOf [CWord]), Opt (AnyOf [CChar CHR 0x22])]),
                  AnyOf [CChar CHR ''.'']]),
       Opt (AnyOf [CChar CHR 0x22]),
       Group ''name'' (Plus (AnyOf [CWord])),
       Opt (AnyOf [CChar CHR 0x22])])"

definition col_re :: regex where
  \<comment> \<open>\<open>^\s*"?(?P<col>\w+)"?\s+(?P<type>[^(),\s]+(?:\s+[^(),\s]+)*)(?:\((?P<lens>\d+(?:,\d+)?)\))?\s*(?:,)?\s*$\<close>\<close>
  "col_re =
     seqs [Bos, Star (AnyOf [CSpace]), Opt (AnyOf [CChar CHR 0x22]),
       Group ''col'' (Plus (AnyOf [CWord])),
       Opt (AnyOf [CChar CHR 0x22]), Plus (AnyOf [CSpace]),
       Group ''type''
         (seqs [Plus (NoneOf [CChar CHR ''('', CChar CHR '')'', CChar CHR '','', CSpace]),
                Star (seqs [Plus (AnyOf [CSpace]),
                            Plus (NoneOf [CChar CHR ''('', CChar CHR '')'', CChar CHR '','', CSpace])])]),
       Opt (seqs [AnyOf [CChar CHR ''(''],
                  Group ''lens'' (seqs [Plus (AnyOf [CDigit]),
                                        Opt (seqs [AnyOf [CChar CHR '',''], Plus (AnyOf [CDigit])])]),
                  AnyOf [CChar CHR '')'']]),
       Star (AnyOf [CSpace]), Opt (AnyOf [CChar CHR '','']), Star (AnyOf [CSpace]), Eos]"

section \<open>The schema parser\<close>

definition constraint_starts :: "string list" where
  "constraint_starts =
     [''primary key'', ''foreign key'', ''unique'', ''check'', ''constraint'',
      ''index'', ''key'', ''references'']"

fun parse_lines :: "string option \<Rightarrow> col_def list \<Rightarrow> string list \<Rightarrow> string option \<times> col_def list" where
  \<comment> \<open>the loop over the lines of one file, from the table name and the columns found so far.\<close>
  "parse_lines tbl cols [] = (tbl, cols)"
| "parse_lines tbl cols (raw # rest) =
     (let line = strip raw
      in if line = [] then parse_lines tbl cols rest
         else if tbl = None then
           (case re_search table_re line of
              Some m \<Rightarrow> parse_lines (Some (group m ''name'')) cols rest
            | None \<Rightarrow> parse_lines tbl cols rest)
         else if startswith line '')'' \<or> endswith line '');'' then (tbl, cols)
         else if startswith_any (lower line) constraint_starts then parse_lines tbl cols rest
         else
           (case re_match col_re (rstrip_chr CHR '','' line) of
              Some m \<Rightarrow>
                parse_lines tbl
                  (cols @ [\<lparr>name = group m ''col'', type = strip (group m ''type''),
                             lens = strip (group m ''lens'')\<rparr>]) rest
            | None \<Rightarrow> parse_lines tbl cols rest))"

definition parse_schema_file :: "string list \<Rightarrow> string option \<times> col_def list" where
  \<comment> \<open>a file is given by its lines.\<close>
  "parse_schema_file lines = parse_lines None [] lines"

type_synonym schemas = "(string \<times> col_def list) list"

fun parse_schema_dir :: "(string \<times> string list) list \<Rightarrow> schemas \<Rightarrow> schemas" where
  \<comment> \<open>the loop over the directory listing (file name and lines, in listing order); the
      result is a dictionary in insertion order.\<close>
  "parse_schema_dir [] schemas = schemas"
| "parse_schema_dir ((fname, lines) # rest) schemas =
     (if \<not> endswith (lower fname) ''.sql'' then parse_schema_dir rest schemas
      else
        (case parse_schema_file lines of
           (Some tbl, cols) \<Rightarrow>
             if tbl \<noteq> [] \<and> cols \<noteq> [] then parse_schema_dir rest (AList.update tbl cols schemas)
             else parse_schema_dir rest schemas
         | (None, cols) \<Rightarrow> parse_schema_dir rest schemas))"

definition parse_keyval_map :: "string \<Rightarrow> (string \<times> string) list" where
  \<comment> \<open>with the default separators \<open>,\<close> and \<open>=\<close>.\<close>
  "parse_keyval_map s =
     (if s = [] then []
      else
        foldl (\<lambda>out piece.
                 if piece = [] then out
                 else if CHR ''='' \<notin> set piece then out
                 else (let (k, v) = split_first CHR ''='' piece
                       in AList.update (strip k) (strip v) out))
          [] (map strip (split_on CHR '','' s)))"

section \<open>Rows and the row builder\<close>

text \<open>
  A row is a dictionary from column names to values, kept in insertion order: writing a
  key it holds replaces the value in place, writing a new key appends it.
\<close>

type_synonym 'f row = "(string \<times> 'f pyval) list"

fun py_eq :: "'f pyval \<Rightarrow> 'f pyval \<Rightarrow> bool" where
  \<comment> \<open>\<open>a == b\<close> for two values of the same type. Decimals are equal when they denote the
      same number; the other values are equal when they are the same value.\<close>
  "py_eq (VDecimal a) (VDecimal b) = dec_eq a b"
| "py_eq a b = (a = b)"

definition tuple_in :: "'f pyval list \<Rightarrow> 'f pyval list list \<Rightarrow> bool" where
  \<comment> \<open>\<open>comp in seen_keys\<close>: some tuple seen before is equal to the tuple, component by
      component.\<close>
  "tuple_in ckey seen = list_ex (list_all2 py_eq ckey) seen"

fun composite_key :: "'f row \<Rightarrow> string list \<Rightarrow> error + 'f pyval list" where
  \<comment> \<open>\<open>tuple(row[k] for k in keys)\<close>\<close>
  "composite_key row [] = Inr []"
| "composite_key row (k # ks) =
     (case map_of row k of
        None \<Rightarrow> Inl (KeyError k)
      | Some v \<Rightarrow> (case composite_key row ks of Inl e \<Rightarrow> Inl e | Inr vs \<Rightarrow> Inr (v # vs)))"

fun gen_row :: "'f env \<Rightarrow> col_def list \<Rightarrow> 'f row \<Rightarrow> rng \<Rightarrow> error + 'f row \<times> rng" where
  \<comment> \<open>\<open>for c in parent_cols: row[c['name']] = generate_random(c)\<close>\<close>
  "gen_row env [] row g = Inr (row, g)"
| "gen_row env (c # cs) row g =
     (case generate_random env c g of
        Inl e \<Rightarrow> Inl e
      | Inr (v, g') \<Rightarrow> gen_row env cs (AList.update (name c) v row) g')"

fun try_row ::
  "'f env \<Rightarrow> col_def list \<Rightarrow> string list \<Rightarrow> 'f pyval list list \<Rightarrow> nat \<Rightarrow> rng
   \<Rightarrow> error + 'f row \<times> 'f pyval list list \<times> rng" where
  \<comment> \<open>the attempts for one parent row, with the number of attempts left; the result is the
      accepted row, the tuples seen and the random source.\<close>
  "try_row env cols keys seen 0 g = Inl DuplicateKeySpaceExhausted"
| "try_row env cols keys seen (Suc n) g =
     (case gen_row env cols [] g of
        Inl e \<Rightarrow> Inl e
      | Inr (row, g') \<Rightarrow>
          if keys \<noteq> [] then
            (case composite_key row keys of
               Inl e \<Rightarrow> Inl e
             | Inr ckey \<Rightarrow>
                 if tuple_in ckey seen then try_row env cols keys seen n g'
                 else Inr (row, ckey # seen, g'))
          else Inr (row, seen, g'))"

fun gen_parent_rows ::
  "'f env \<Rightarrow> col_def list \<Rightarrow> string list \<Rightarrow> nat \<Rightarrow> 'f pyval list list \<Rightarrow> 'f row list \<Rightarrow> rng
   \<Rightarrow> error + 'f row list \<times> 'f pyval list list \<times> rng" where
  \<comment> \<open>\<open>for _ in range(num_rows)\<close>, with the number of rows still to build.\<close>
  "gen_parent_rows env cols keys 0 seen rows g = Inr (rows, seen, g)"
| "gen_parent_rows env cols keys (Suc n) seen rows g =
     (case try_row env cols keys seen 200 g of
        Inl e \<Rightarrow> Inl e
      | Inr (row, seen', g') \<Rightarrow> gen_parent_rows env cols keys n seen' (rows @ [row]) g')"

fun gen_child_row ::
  "'f env \<Rightarrow> col_def list \<Rightarrow> (string \<times> string) list \<Rightarrow> 'f row \<Rightarrow> 'f row \<Rightarrow> rng
   \<Rightarrow> error + 'f row \<times> rng" where
  \<comment> \<open>\<open>for c in cols\<close>: copy the mapped parent value, or generate.\<close>
  "gen_child_row env [] fkey_map prow crow g = Inr (crow, g)"
| "gen_child_row env (c # cs) fkey_map prow crow g =
     (case (case map_of fkey_map (name c) of None \<Rightarrow> None | Some pc \<Rightarrow> map_of prow pc) of
        Some v \<Rightarrow> gen_child_row env cs fkey_map prow (AList.update (name c) v crow) g
      | None \<Rightarrow>
          (case generate_random env c g of
             Inl e \<Rightarrow> Inl e
           | Inr (v, g') \<Rightarrow> gen_child_row env cs fkey_map prow (AList.update (name c) v crow) g'))"

fun repeat_child ::
  "'f env \<Rightarrow> col_def list \<Rightarrow> (string \<times> string) list \<Rightarrow> 'f row \<Rightarrow> nat \<Rightarrow> 'f row list \<Rightarrow> rng
   \<Rightarrow> error + 'f row list \<times> rng" where
  \<comment> \<open>\<open>for _ in range(m)\<close>, with the number of repetitions left.\<close>
  "repeat_child env cols fkey_map prow 0 child_rows g = Inr (child_rows, g)"
| "repeat_child env cols fkey_map prow (Suc n) child_rows g =
     (case gen_child_row env cols fkey_map prow [] g of
        Inl e \<Rightarrow> Inl e
      | Inr (crow, g') \<Rightarrow> repeat_child env cols fkey_map prow n (child_rows @ [crow]) g')"

fun gen_child_rows ::
  "'f env \<Rightarrow> col_def list \<Rightarrow> (string \<times> string) list \<Rightarrow> int \<Rightarrow> 'f row list \<Rightarrow> 'f row list \<Rightarrow> rng
   \<Rightarrow> error + 'f row list \<times> rng" where
  \<comment> \<open>\<open>for prow in parent_rows\<close>\<close>
  "gen_child_rows env cols fkey_map m [] child_rows g = Inr (child_rows, g)"
| "gen_child_rows env cols fkey_map m (prow # prows) child_rows g =
     (case repeat_child env cols fkey_map prow (nat m) child_rows g of
        Inl e \<Rightarrow> Inl e
      | Inr (child_rows', g') \<Rightarrow> gen_child_rows env cols fkey_map m prows child_rows' g')"

section \<open>The command line\<close>

definition key_list :: "string \<Rightarrow> string list" where
  \<comment> \<open>\<open>[k.strip() for k in key_fields.split(',') if k.strip()]\<close>\<close>
  "key_list key_fields = filter (\<lambda>k. k \<noteq> []) (map strip (split_on CHR '','' key_fields))"

fun select_loop :: "string list \<Rightarrow> schemas \<Rightarrow> string \<Rightarrow> string" where
  \<comment> \<open>\<open>for tname, cols in schemas.items()\<close>, with the parent chosen so far.\<close>
  "select_loop keys [] parent_table = parent_table"
| "select_loop keys ((tname, cols) # rest) parent_table =
     (if keys \<noteq> [] \<and> set keys \<subseteq> set (map name cols) then tname
      else select_loop keys rest parent_table)"

definition select_parent :: "schemas \<Rightarrow> string \<Rightarrow> string" where
  \<comment> \<open>the parent table of a schema set that is not empty.\<close>
  "select_parent schemas key_fields =
     (let parent_table = fst (hd schemas)
      in if key_fields \<noteq> [] then select_loop (key_list key_fields) schemas parent_table
         else parent_table)"

fun mult_map_of :: "(string \<times> string) list \<Rightarrow> error + (string \<times> int) list" where
  \<comment> \<open>\<open>{k: int(v) for k, v in ...items()}\<close>\<close>
  "mult_map_of [] = Inr []"
| "mult_map_of ((k, v) # kvs) =
     (case py_int v of
        Inl e \<Rightarrow> Inl e
      | Inr n \<Rightarrow> (case mult_map_of kvs of Inl e \<Rightarrow> Inl e | Inr m \<Rightarrow> Inr ((k, n) # m)))"

type_synonym 'f table_out = "string \<times> col_def list \<times> 'f row list"

fun gen_children ::
  "'f env \<Rightarrow> schemas \<Rightarrow> string \<Rightarrow> (string \<times> int) list \<Rightarrow> (string \<times> string) list \<Rightarrow> 'f row list
   \<Rightarrow> 'f table_out list \<Rightarrow> rng \<Rightarrow> 'f table_out list \<times> error option" where
  \<comment> \<open>\<open>for tbl, cols in schemas.items()\<close>: the tables written so far, and the error that
      stopped the run, if any.\<close>
  "gen_children env [] parent_table mult_map fkey_map parent_rows written g = (written, None)"
| "gen_children env ((tbl, cols) # rest) parent_table mult_map fkey_map parent_rows written g =
     (if tbl = parent_table
      then gen_children env rest parent_table mult_map fkey_map parent_rows written g
      else
        let m = (case map_of mult_map tbl of None \<Rightarrow> 1 | Some n \<Rightarrow> n)
        in case gen_child_rows env cols fkey_map m parent_rows [] g of
             Inl e \<Rightarrow> (written, Some e)
           | Inr (child_rows, g') \<Rightarrow>
               gen_children env rest parent_table mult_map fkey_map parent_rows
                 (written @ [(tbl, cols, child_rows)]) g')"

definition main_cli ::
  "'f env \<Rightarrow> (string \<times> string list) list \<Rightarrow> string \<Rightarrow> int \<Rightarrow> string \<Rightarrow> string \<Rightarrow> rng
   \<Rightarrow> 'f table_out list \<times> error option" where
  \<comment> \<open>a run, from the listing of the schema directory, the four options and the random
      source: the tables written (name, columns, rows), in the order of writing, and the
      error that stopped the run, if any.\<close>
  "main_cli env listing key_fields num_rows multipliers foreign_map g =
     (let schemas = parse_schema_dir listing []
      in if schemas = [] then ([], Some NoSchemaFiles)
         else
           let parent_table = select_parent schemas key_fields
           in case map_of schemas parent_table of
                None \<Rightarrow> ([], Some (KeyError parent_table))
              | Some parent_cols \<Rightarrow>
                  let parent_keys = key_list key_fields
                  in case gen_parent_rows env parent_cols parent_keys (nat num_rows) [] [] g of
                       Inl e \<Rightarrow> ([], Some e)
                     | Inr (parent_rows, seen, g1) \<Rightarrow>
                         (case mult_map_of (parse_keyval_map multipliers) of
                            Inl e \<Rightarrow> ([(parent_table, parent_cols, parent_rows)], Some e)
                          | Inr mult_map \<Rightarrow>
                              gen_children env schemas parent_table mult_map
                                (parse_keyval_map foreign_map) parent_rows
                                [(parent_table, parent_cols, parent_rows)] g1))"

section \<open>Inputs of the examples\<close>

definition env0 :: "nat env" where
  \<comment> \<open>an environment for the examples; floats are stood for by the raw draw.\<close>
  "env0 = \<lparr>random_uniform = (\<lambda>r. r),
           uuid_uuid4 = (\<lambda>r. ''00000000-0000-4000-8000-000000000000''),
           fake_date_object = (\<lambda>r. Date 1970 1 1),
           fake_date_time = (\<lambda>r. DateTime 1970 1 1 0 0 0 (r mod 1000000)),
           fake_paragraph = (\<lambda>r. ''Lorem ipsum. Dolor sit.''),
           fake_word = (\<lambda>r. ''lorem'')\<rparr>"

section \<open>Predicates of the statements\<close>

definition varchar_column :: "col_def \<Rightarrow> bool" where
  \<comment> \<open>the column is decided by the rule for \<open>varchar\<close>, \<open>nvarchar\<close> and \<open>varying\<close>: its
      normalized type contains one of the three and no earlier rule of the generator
      takes it.\<close>
  "varchar_column c =
     (let t = t_norm c
      in \<not> any_in [''bigint'', ''int8''] t \<and> \<not> any_in [''smallint'', ''int2''] t
         \<and> \<not> any_in [''integer'', ''int'', ''int4''] t
         \<and> \<not> (contains t ''numeric'' \<or> contains t ''decimal'')
         \<and> \<not> any_in [''float'', ''double'', ''real''] t
         \<and> \<not> contains t ''uuid'' \<and> \<not> contains t ''bool''
         \<and> strip t \<noteq> ''date'' \<and> \<not> contains t ''timestamp''
         \<and> \<not> (strip t = ''time'' \<or> startswith t ''time '')
         \<and> (contains t ''varchar'' \<or> contains t ''nvarchar'' \<or> contains t ''varying''))"

definition superset_of_keys :: "string list \<Rightarrow> string \<times> col_def list \<Rightarrow> bool" where
  \<comment> \<open>the column names of a table include every key field.\<close>
  "superset_of_keys keys tc = (set keys \<subseteq> set (map name (snd tc)))"

definition customer_cols :: "col_def list" where
  "customer_cols = [\<lparr>name = ''id'', type = ''integer'', lens = ''''\<rparr>,
                    \<lparr>name = ''code'', type = ''varchar'', lens = ''5''\<rparr>]"

definition order_cols :: "col_def list" where
  "order_cols = [\<lparr>name = ''id'', type = ''integer'', lens = ''''\<rparr>,
                 \<lparr>name = ''customer_id'', type = ''integer'', lens = ''''\<rparr>]"

definition customer_sql :: "string list" where
  \<comment> \<open>the lines of a schema file that declares \<open>Customer\<close>, one column per line.\<close>
  "customer_sql =
     [''CREATE TABLE '' @ [CHR 0x22] @ ''Customer'' @ [CHR 0x22] @ '' ('' @ [CHR 0x0A],
      ''  id integer,'' @ [CHR 0x0A],
      ''  code varchar(5)'' @ [CHR 0x0A],
      '');'' @ [CHR 0x0A]]"

definition order_sql :: "string list" where
  \<comment> \<open>the lines of a schema file that declares \<open>Order\<close>, one column per line.\<close>
  "order_sql =
     [''CREATE TABLE '' @ [CHR 0x22] @ ''Order'' @ [CHR 0x22] @ '' ('' @ [CHR 0x0A],
      ''  id integer,'' @ [CHR 0x0A],
      ''  customer_id integer'' @ [CHR 0x0A],
      '');'' @ [CHR 0x0A]]"

fun fresh_keys :: "'f pyval list list \<Rightarrow> bool" where
  \<comment> \<open>in a list of tuples, newest first: no tuple is equal to one produced before it.\<close>
  "fresh_keys [] = True"
| "fresh_keys (k # ks) = (\<not> tuple_in k ks \<and> fresh_keys ks)"

definition affine_rng :: "nat \<Rightarrow> nat \<Rightarrow> rng" where
  \<comment> \<open>a random source for the examples: the draws \<open>b\<close>, \<open>a + b\<close>, \<open>2 * a + b\<close>, ...\<close>
  "affine_rng a b = (\<lambda>i. a * i + b)"

definition customer_rows_example :: "nat row list" where
  "customer_rows_example =
     [[(''id'', VInt 3), (''code'', VStr ''r'')],
      [(''id'', VInt 24), (''code'', VStr ''MT'')],
      [(''id'', VInt 52), (''code'', VStr ''ovCJQ'')]]"

definition order_rows_example :: "nat row list" where
  "order_rows_example =
     [[(''id'', VInt 101), (''customer_id'', VInt 3)],
      [(''id'', VInt 108), (''customer_id'', VInt 3)],
      [(''id'', VInt 115), (''customer_id'', VInt 24)],
      [(''id'', VInt 122), (''customer_id'', VInt 24)],
      [(''id'', VInt 129), (''customer_id'', VInt 52)],
      [(''id'', VInt 136), (''customer_id'', VInt 52)]]"


definition keyword_named_sql :: "string list" where
  \<comment> \<open>the lines of a schema file whose first four columns have names that begin with a
      constraint keyword.\<close>
  "keyword_named_sql =
     [''CREATE TABLE t ('' @ [CHR 0x0A],
      ''  key_id integer,'' @ [CHR 0x0A],
      ''  checksum varchar(32),'' @ [CHR 0x0A],
      ''  index_no int,'' @ [CHR 0x0A],
      ''  references_count bigint,'' @ [CHR 0x0A],
      ''  name text'' @ [CHR 0x0A],
      '');'' @ [CHR 0x0A]]"

definition matches_format :: "string \<Rightarrow> string \<Rightarrow> bool" where
  \<comment> \<open>the text has the shape of a format such as \<open>YYYY-MM-DD\<close>: a digit where the format
      has a capital letter, and the character of the format elsewhere.\<close>
  "matches_format fmt t =
     list_all2 (\<lambda>x c. if x \<in> set ascii_uppercase then is_digit c else c = x) fmt t"

definition nat_of_digits :: "string \<Rightarrow> nat" where
  \<comment> \<open>the number that a string of digits spells.\<close>
  "nat_of_digits t = foldl (\<lambda>a c. 10 * a + digit_val c) 0 t"

definition field :: "string \<Rightarrow> nat \<Rightarrow> nat \<Rightarrow> nat" where
  \<comment> \<open>the number spelled by the \<open>len\<close> characters of the text from position \<open>pos\<close>.\<close>
  "field t pos len = nat_of_digits (take len (drop pos t))"

definition sql_escape :: "string \<Rightarrow> string" where
  \<comment> \<open>the text with each single quote doubled.\<close>
  "sql_escape s = concat (map (\<lambda>c. if c = quote_chr then [quote_chr, quote_chr] else [c]) s)"

definition whole_digits :: "string \<Rightarrow> nat" where
  \<comment> \<open>the number of characters of a decimal text before its decimal point (all of them
      when it has none).\<close>
  "whole_digits t = length (takeWhile (\<lambda>c. c \<noteq> CHR ''.'') t)"

definition frac_digits :: "string \<Rightarrow> nat" where
  \<comment> \<open>the number of characters of a decimal text after its decimal point (none when it has
      no point).\<close>
  "frac_digits t = length (drop 1 (dropWhile (\<lambda>c. c \<noteq> CHR ''.'') t))"

definition numeric_column :: "col_def \<Rightarrow> int \<Rightarrow> int \<Rightarrow> bool" where
  \<comment> \<open>the column is decided by the rule for \<open>numeric\<close> and \<open>decimal\<close>, and its length spec
      gives the precision \<open>P\<close> and the scale \<open>S\<close>.\<close>
  "numeric_column c P S =
     (let t = t_norm c
      in \<not> any_in [''bigint'', ''int8''] t \<and> \<not> any_in [''smallint'', ''int2''] t
         \<and> \<not> any_in [''integer'', ''int'', ''int4''] t
         \<and> (contains t ''numeric'' \<or> contains t ''decimal'')
         \<and> numeric_ps (strip (lens c)) = (P, S))"

definition varchar_typed :: "col_def \<Rightarrow> bool" where
  \<comment> \<open>the column is a \<open>varchar\<close>, \<open>nvarchar\<close> or \<open>varying\<close> column: its normalized type
      contains one of the three words.\<close>
  "varchar_typed c =
     (contains (t_norm c) ''varchar'' \<or> contains (t_norm c) ''nvarchar''
      \<or> contains (t_norm c) ''varying'')"

section \<open>The random source: ranges\<close>

lemma randint_range: "lo \<le> hi \<Longrightarrow> lo \<le> fst (randint lo hi g) \<and> fst (randint lo hi g) \<le> hi"
proof -
  assume h: "lo \<le> hi"
  have "g 0 mod nat (hi - lo + 1) < nat (hi - lo + 1)" using h by simp
  then have "int (g 0 mod nat (hi - lo + 1)) < hi - lo + 1" by linarith
  then show ?thesis using h by (simp add: randint_def draw_def)
qed

lemma random_letters_length: "length (fst (random_letters n g)) = n"
  by (induction n arbitrary: g) (simp_all add: split_def Let_def)

lemma pystr_length:
  assumes "0 \<le> lo" "lo \<le> hi"
  shows "lo \<le> int (length (fst (pystr lo hi g))) \<and> int (length (fst (pystr lo hi g))) \<le> hi"
proof -
  have r: "lo \<le> fst (randint lo hi g) \<and> fst (randint lo hi g) \<le> hi"
    using assms(2) by (rule randint_range)
  have "length (fst (pystr lo hi g)) = nat (fst (randint lo hi g))"
    by (simp add: pystr_def split_def Let_def random_letters_length)
  then show ?thesis using r assms(1) by simp
qed

lemma int_between_range:
  "0 \<le> m \<Longrightarrow> \<exists>n g'. (int_between m g :: 'f pyval \<times> rng) = (VInt n, g') \<and> 0 \<le> n \<and> n \<le> m"
  using randint_range [of 0 m g] by (simp add: int_between_def split_def Let_def)

section \<open>Integer families\<close>

text \<open>
  Claim C7. A column whose normalized type string contains \<open>bigint\<close> or \<open>int8\<close> gets an
  integer of \<open>[0, 9000000000]\<close>; otherwise, one that contains \<open>smallint\<close> or \<open>int2\<close> gets an
  integer of \<open>[0, 32000]\<close>; otherwise, one that contains \<open>integer\<close>, \<open>int\<close> or \<open>int4\<close> gets
  an integer of \<open>[0, 1000000]\<close>. The three tests are made in this order and the first
  that holds decides; the generator does not fail on such a column.
\<close>

theorem generate_random_integer_families:
  fixes env :: "'f env"
  shows "(contains (t_norm c) ''bigint'' \<or> contains (t_norm c) ''int8''
            \<longrightarrow> (\<exists>n g'. generate_random env c g = Inr (VInt n, g') \<and> 0 \<le> n \<and> n \<le> 9000000000))
       \<and> (\<not> (contains (t_norm c) ''bigint'' \<or> contains (t_norm c) ''int8'')
            \<and> (contains (t_norm c) ''smallint'' \<or> contains (t_norm c) ''int2'')
            \<longrightarrow> (\<exists>n g'. generate_random env c g = Inr (VInt n, g') \<and> 0 \<le> n \<and> n \<le> 32000))
       \<and> (\<not> (contains (t_norm c) ''bigint'' \<or> contains (t_norm c) ''int8'')
            \<and> \<not> (contains (t_norm c) ''smallint'' \<or> contains (t_norm c) ''int2'')
            \<and> (contains (t_norm c) ''integer'' \<or> contains (t_norm c) ''int'' \<or> contains (t_norm c) ''int4'')
            \<longrightarrow> (\<exists>n g'. generate_random env c g = Inr (VInt n, g') \<and> 0 \<le> n \<and> n \<le> 1000000))"
proof -
  have b: "\<exists>n g'. (int_between 9000000000 g :: 'f pyval \<times> rng) = (VInt n, g') \<and> 0 \<le> n \<and> n \<le> 9000000000"
    by (rule int_between_range) simp
  have s: "\<exists>n g'. (int_between 32000 g :: 'f pyval \<times> rng) = (VInt n, g') \<and> 0 \<le> n \<and> n \<le> 32000"
    by (rule int_between_range) simp
  have i: "\<exists>n g'. (int_between 1000000 g :: 'f pyval \<times> rng) = (VInt n, g') \<and> 0 \<le> n \<and> n \<le> 1000000"
    by (rule int_between_range) simp
  show ?thesis
    using b s i by (simp add: generate_random_def any_in_def Let_def)
qed

text \<open>
  The three rules at work: a \<open>BIGINT\<close> column, a \<open>smallint\<close> column (which also contains
  \<open>int\<close>, and is decided by the second rule) and an \<open>interval\<close> column (which merely
  contains \<open>int\<close>).
\<close>

theorem generate_random_integer_families_witness:
  "contains (t_norm \<lparr>name = ''id'', type = ''BIGINT'', lens = ''''\<rparr>) ''bigint''
   \<and> (\<exists>n g'. generate_random env0 \<lparr>name = ''id'', type = ''BIGINT'', lens = ''''\<rparr> (\<lambda>i. 12345678901)
                = Inr (VInt n, g') \<and> 0 \<le> n \<and> n \<le> 9000000000)
   \<and> \<not> (contains (t_norm \<lparr>name = ''n'', type = ''smallint'', lens = ''''\<rparr>) ''bigint''
         \<or> contains (t_norm \<lparr>name = ''n'', type = ''smallint'', lens = ''''\<rparr>) ''int8'')
   \<and> contains (t_norm \<lparr>name = ''n'', type = ''smallint'', lens = ''''\<rparr>) ''smallint''
   \<and> (\<exists>n g'. generate_random env0 \<lparr>name = ''n'', type = ''smallint'', lens = ''''\<rparr> (\<lambda>i. 12345678901)
                = Inr (VInt n, g') \<and> 0 \<le> n \<and> n \<le> 32000)
   \<and> \<not> (contains (t_norm \<lparr>name = ''d'', type = ''interval'', lens = ''''\<rparr>) ''bigint''
         \<or> contains (t_norm \<lparr>name = ''d'', type = ''interval'', lens = ''''\<rparr>) ''int8'')
   \<and> \<not> (contains (t_norm \<lparr>name = ''d'', type = ''interval'', lens = ''''\<rparr>) ''smallint''
         \<or> contains (t_norm \<lparr>name = ''d'', type = ''interval'', lens = ''''\<rparr>) ''int2'')
   \<and> contains (t_norm \<lparr>name = ''d'', type = ''interval'', lens = ''''\<rparr>) ''int''
   \<and> (\<exists>n g'. generate_random env0 \<lparr>name = ''d'', type = ''interval'', lens = ''''\<rparr> (\<lambda>i. 12345678901)
                = Inr (VInt n, g') \<and> 0 \<le> n \<and> n \<le> 1000000)"
proof -
  have h1: "contains (t_norm \<lparr>name = ''id'', type = ''BIGINT'', lens = ''''\<rparr>) ''bigint''"
    by code_simp
  have h2: "\<not> (contains (t_norm \<lparr>name = ''n'', type = ''smallint'', lens = ''''\<rparr>) ''bigint''
         \<or> contains (t_norm \<lparr>name = ''n'', type = ''smallint'', lens = ''''\<rparr>) ''int8'')"
    by code_simp
  have h3: "contains (t_norm \<lparr>name = ''n'', type = ''smallint'', lens = ''''\<rparr>) ''smallint''"
    by code_simp
  have h4: "\<not> (contains (t_norm \<lparr>name = ''d'', type = ''interval'', lens = ''''\<rparr>) ''bigint''
         \<or> contains (t_norm \<lparr>name = ''d'', type = ''interval'', lens = ''''\<rparr>) ''int8'')"
    by code_simp
  have h5: "\<not> (contains (t_norm \<lparr>name = ''d'', type = ''interval'', lens = ''''\<rparr>) ''smallint''
         \<or> contains (t_norm \<lparr>name = ''d'', type = ''interval'', lens = ''''\<rparr>) ''int2'')"
    by code_simp
  have h6: "contains (t_norm \<lparr>name = ''d'', type = ''interval'', lens = ''''\<rparr>) ''int''"
    by code_simp
  show ?thesis
    using h1 h2 h3 h4 h5 h6
      generate_random_integer_families [of "\<lparr>name = ''id'', type = ''BIGINT'', lens = ''''\<rparr>" env0 "\<lambda>i. 12345678901"]
      generate_random_integer_families [of "\<lparr>name = ''n'', type = ''smallint'', lens = ''''\<rparr>" env0 "\<lambda>i. 12345678901"]
      generate_random_integer_families [of "\<lparr>name = ''d'', type = ''interval'', lens = ''''\<rparr>" env0 "\<lambda>i. 12345678901"]
    by blast
qed

section \<open>The parent table\<close>

lemma select_loop_find:
  "select_loop keys schemas p =
     (if keys = [] then p
      else case find (superset_of_keys keys) schemas of Some tc \<Rightarrow> fst tc | None \<Rightarrow> p)"
  unfolding superset_of_keys_def by (induction schemas) auto

lemma key_list_empty: "key_list [] = []"
  by (simp add: key_list_def strip_def lstrip_def rstrip_def)

text \<open>
  Claim C6. In a schema set that is not empty, the parent table is the first table in
  iteration order when the list of key fields is empty; with a list of key fields that
  is not empty it is the first table, in iteration order, whose column names include
  every key field, and the first table of the schema set when no table does.
\<close>

theorem select_parent_policy:
  assumes "schemas \<noteq> []"
  shows "(key_list key_fields = [] \<longrightarrow> select_parent schemas key_fields = fst (hd schemas))
       \<and> (key_list key_fields \<noteq> [] \<longrightarrow>
            (\<forall>i < length schemas.
                superset_of_keys (key_list key_fields) (schemas ! i)
                \<and> (\<forall>j < i. \<not> superset_of_keys (key_list key_fields) (schemas ! j))
                \<longrightarrow> select_parent schemas key_fields = fst (schemas ! i))
          \<and> ((\<forall>i < length schemas. \<not> superset_of_keys (key_list key_fields) (schemas ! i))
                \<longrightarrow> select_parent schemas key_fields = fst (hd schemas)))"
proof -
  let ?ks = "key_list key_fields"
  let ?P = "superset_of_keys ?ks"
  have sp: "select_parent schemas key_fields =
      (if ?ks = [] then fst (hd schemas)
       else case find ?P schemas of Some tc \<Rightarrow> fst tc | None \<Rightarrow> fst (hd schemas))"
    by (cases "key_fields = []") (simp_all add: select_parent_def select_loop_find key_list_empty)
  have first: "select_parent schemas key_fields = fst (schemas ! i)"
    if "?ks \<noteq> []" "i < length schemas" "?P (schemas ! i)" "\<forall>j < i. \<not> ?P (schemas ! j)" for i
  proof -
    have "find ?P schemas = Some (schemas ! i)"
      using that by (auto simp: find_Some_iff)
    then show ?thesis using that(1) by (simp add: sp)
  qed
  have none: "select_parent schemas key_fields = fst (hd schemas)"
    if "?ks \<noteq> []" "\<forall>i < length schemas. \<not> ?P (schemas ! i)"
  proof -
    have "find ?P schemas = None"
      using that(2) by (auto simp: find_None_iff in_set_conv_nth)
    then show ?thesis by (simp add: sp)
  qed
  show ?thesis using sp first none by auto
qed

text \<open>
  With \<open>Order\<close> before \<open>Customer\<close> in the schema set: the key fields \<open>id, code\<close> select
  \<open>Customer\<close>, the key field \<open>zzz\<close> of no table leaves \<open>Order\<close>, and so does a key-field
  text without a name.
\<close>

theorem select_parent_policy_witness:
  "[(''Order'', order_cols), (''Customer'', customer_cols)] \<noteq> []
   \<and> key_list ''id, code'' = [''id'', ''code'']
   \<and> select_parent [(''Order'', order_cols), (''Customer'', customer_cols)] ''id, code'' = ''Customer''
   \<and> key_list ''zzz'' = [''zzz'']
   \<and> select_parent [(''Order'', order_cols), (''Customer'', customer_cols)] ''zzz'' = ''Order''
   \<and> key_list '' , '' = []
   \<and> select_parent [(''Order'', order_cols), (''Customer'', customer_cols)] '' , '' = ''Order''"
proof -
  define s0 where "s0 = [(''Order'', order_cols), (''Customer'', customer_cols)]"
  have ne: "s0 \<noteq> []" by (simp add: s0_def)
  have k1: "key_list ''id, code'' = [''id'', ''code'']" by code_simp
  have k2: "key_list ''zzz'' = [''zzz'']" by code_simp
  have k3: "key_list '' , '' = []" by code_simp
  have a: "superset_of_keys [''id'', ''code''] (s0 ! 1)"
    by (simp add: superset_of_keys_def s0_def customer_cols_def)
  have b: "\<forall>j < (1::nat). \<not> superset_of_keys [''id'', ''code''] (s0 ! j)"
    by (simp add: superset_of_keys_def s0_def order_cols_def)
  have c: "\<forall>i < length s0. \<not> superset_of_keys [''zzz''] (s0 ! i)"
    by (simp add: superset_of_keys_def less_Suc_eq s0_def order_cols_def customer_cols_def)
  have r1: "select_parent s0 ''id, code'' = ''Customer''"
  proof -
    have "key_list ''id, code'' \<noteq> []" by (simp add: k1)
    with select_parent_policy [OF ne, of "''id, code''"]
    have "\<forall>i < length s0.
            superset_of_keys (key_list ''id, code'') (s0 ! i)
            \<and> (\<forall>j < i. \<not> superset_of_keys (key_list ''id, code'') (s0 ! j))
            \<longrightarrow> select_parent s0 ''id, code'' = fst (s0 ! i)"
      by blast
    moreover have "(1::nat) < length s0" by (simp add: s0_def)
    ultimately have "select_parent s0 ''id, code'' = fst (s0 ! 1)"
      using a b unfolding k1 by blast
    then show ?thesis by (simp add: s0_def)
  qed
  have r2: "select_parent s0 ''zzz'' = ''Order''"
  proof -
    have "key_list ''zzz'' \<noteq> []" by (simp add: k2)
    with select_parent_policy [OF ne, of "''zzz''"]
    have "(\<forall>i < length s0. \<not> superset_of_keys (key_list ''zzz'') (s0 ! i))
            \<longrightarrow> select_parent s0 ''zzz'' = fst (hd s0)"
      by blast
    then have "select_parent s0 ''zzz'' = fst (hd s0)"
      using c unfolding k2 by blast
    then show ?thesis by (simp add: s0_def)
  qed
  have r3: "select_parent s0 '' , '' = ''Order''"
  proof -
    have "select_parent s0 '' , '' = fst (hd s0)"
      using select_parent_policy [OF ne, of "'' , ''"] k3 by blast
    then show ?thesis by (simp add: s0_def)
  qed
  show ?thesis using ne k1 k2 k3 r1 r2 r3 unfolding s0_def by blast
qed

section \<open>Parent rows\<close>

lemma dec_eq_refl: "dec_eq a a"
  by (simp add: dec_eq_def)

lemma dec_eq_sym: "dec_eq a b = dec_eq b a"
  by (auto simp: dec_eq_def Let_def min.commute)

lemma py_eq_refl: "py_eq a a"
  by (cases a) (simp_all add: dec_eq_refl)

lemma py_eq_sym: "py_eq a b = py_eq b a"
  by (cases a; cases b) (auto simp: dec_eq_sym)

lemma tuple_eq_refl: "list_all2 py_eq t t"
  by (simp add: list_all2_refl py_eq_refl)

lemma tuple_eq_sym: "list_all2 py_eq s t = list_all2 py_eq t s"
  using py_eq_sym by (metis list_all2_conv_all_nth)

lemma tuple_in_iff: "tuple_in k ks = (\<exists>x \<in> set ks. list_all2 py_eq k x)"
  by (simp add: tuple_in_def list_ex_iff)

lemma fresh_keys_nth:
  "fresh_keys ks \<Longrightarrow> i < j \<Longrightarrow> j < length ks \<Longrightarrow> \<not> list_all2 py_eq (ks ! i) (ks ! j)"
proof (induction ks arbitrary: i j)
  case Nil
  then show ?case by simp
next
  case (Cons k ks)
  show ?case
  proof (cases i)
    case 0
    then obtain j' where j: "j = Suc j'" using Cons.prems(2) by (cases j) auto
    then have "ks ! j' \<in> set ks" using Cons.prems(3) by simp
    then show ?thesis using Cons.prems(1) 0 j by (auto simp: tuple_in_iff)
  next
    case (Suc i')
    then obtain j' where j: "j = Suc j'" using Cons.prems(2) by (cases j) auto
    then show ?thesis using Cons Suc by simp
  qed
qed

lemma fresh_keys_distinct: "fresh_keys ks \<Longrightarrow> distinct ks"
proof (induction ks)
  case Nil
  then show ?case by simp
next
  case (Cons k ks)
  then have "k \<notin> set ks" using tuple_eq_refl [of k] by (auto simp: tuple_in_iff)
  then show ?case using Cons by simp
qed

lemma fresh_keys_pairwise:
  assumes "fresh_keys ks" "i < length ks" "j < length ks" "i \<noteq> j"
  shows "\<not> list_all2 py_eq (ks ! i) (ks ! j)"
proof (cases "i < j")
  case True
  then show ?thesis using assms fresh_keys_nth by blast
next
  case False
  then have "j < i" using assms(4) by simp
  then have "\<not> list_all2 py_eq (ks ! j) (ks ! i)" using assms fresh_keys_nth by blast
  then show ?thesis using tuple_eq_sym by blast
qed

lemma try_row_accepts:
  assumes "try_row env cols keys seen n g = Inr (row, seen', g')"
  shows "(keys = [] \<longrightarrow> seen' = seen)
       \<and> (keys \<noteq> [] \<longrightarrow> (\<exists>k. composite_key row keys = Inr k \<and> \<not> tuple_in k seen \<and> seen' = k # seen))"
  using assms
proof (induction n arbitrary: g)
  case 0
  then show ?case by simp
next
  case (Suc n)
  then show ?case
    by (auto split: sum.splits prod.splits if_splits)
qed

lemma gen_parent_rows_invariant:
  assumes "gen_parent_rows env cols keys n seen rows g = Inr (rows', seen', g')"
      and "keys \<noteq> []" and "fresh_keys seen"
      and "map (\<lambda>r. composite_key r keys) rows = map Inr (rev seen)"
  shows "fresh_keys seen' \<and> map (\<lambda>r. composite_key r keys) rows' = map Inr (rev seen')"
  using assms
proof (induction n arbitrary: seen rows g)
  case 0
  then show ?case by simp
next
  case (Suc n)
  from Suc.prems(1) obtain row s1 g1 where
    t: "try_row env cols keys seen 200 g = Inr (row, s1, g1)"
    and r: "gen_parent_rows env cols keys n s1 (rows @ [row]) g1 = Inr (rows', seen', g')"
    by (auto split: sum.splits prod.splits)
  from try_row_accepts [OF t] Suc.prems(2) obtain k where
    k: "composite_key row keys = Inr k" "\<not> tuple_in k seen" "s1 = k # seen"
    by blast
  have f: "fresh_keys s1" using k Suc.prems(3) by simp
  have m: "map (\<lambda>r. composite_key r keys) (rows @ [row]) = map Inr (rev s1)"
    using k Suc.prems(4) by simp
  show ?case using Suc.IH [OF r Suc.prems(2) f m] .
qed


lemma gen_children_written:
  "gen_children env schemas pt mm fk prows written g = (written', err)
   \<Longrightarrow> \<exists>more. written' = written @ more"
proof (induction schemas arbitrary: written g)
  case Nil
  then show ?case by simp
next
  case (Cons tc schemas)
  obtain tbl cols where tc: "tc = (tbl, cols)" by (cases tc)
  show ?case
  proof (cases "tbl = pt")
    case True
    then show ?thesis using Cons tc by simp
  next
    case False
    let ?m = "case map_of mm tbl of None \<Rightarrow> 1 | Some n \<Rightarrow> n"
    show ?thesis
    proof (cases "gen_child_rows env cols fk ?m prows [] g")
      case (Inl e)
      then show ?thesis using Cons.prems tc False by simp
    next
      case (Inr p)
      obtain crows g1 where p: "p = (crows, g1)" by (cases p)
      from Cons.prems tc False Inr p
      have "gen_children env schemas pt mm fk prows (written @ [(tbl, cols, crows)]) g1 = (written', err)"
        by simp
      from Cons.IH [OF this] show ?thesis by auto
    qed
  qed
qed

lemma main_cli_parent:
  assumes run: "main_cli env listing key_fields num_rows multipliers foreign_map g = (written, err)"
      and w: "written \<noteq> []"
  shows "\<exists>pt pc prows seen g1 rest.
           written = (pt, pc, prows) # rest
         \<and> parse_schema_dir listing [] \<noteq> []
         \<and> pt = select_parent (parse_schema_dir listing []) key_fields
         \<and> map_of (parse_schema_dir listing []) pt = Some pc
         \<and> gen_parent_rows env pc (key_list key_fields) (nat num_rows) [] [] g = Inr (prows, seen, g1)"
proof -
  let ?S = "parse_schema_dir listing []"
  let ?pt = "select_parent ?S key_fields"
  have ne: "?S \<noteq> []" using run w by (auto simp: main_cli_def Let_def)
  obtain pc where pc: "map_of ?S ?pt = Some pc"
    using run w ne by (cases "map_of ?S ?pt") (auto simp: main_cli_def Let_def)
  obtain prows seen g1 where
    gp: "gen_parent_rows env pc (key_list key_fields) (nat num_rows) [] [] g = Inr (prows, seen, g1)"
    using run w ne pc
    by (cases "gen_parent_rows env pc (key_list key_fields) (nat num_rows) [] [] g")
       (auto simp: main_cli_def Let_def)
  show ?thesis
  proof (cases "mult_map_of (parse_keyval_map multipliers)")
    case (Inl e)
    then have "written = [(?pt, pc, prows)]"
      using run ne pc gp by (simp add: main_cli_def Let_def)
    then show ?thesis using ne pc gp by blast
  next
    case (Inr mm)
    then have "gen_children env ?S ?pt mm (parse_keyval_map foreign_map) prows [(?pt, pc, prows)] g1 = (written, err)"
      using run ne pc gp by (simp add: main_cli_def Let_def)
    from gen_children_written [OF this] obtain more where "written = [(?pt, pc, prows)] @ more" by blast
    then show ?thesis using ne pc gp by auto
  qed
qed

text \<open>
  Claim C3. In every run configured with a list of key fields that is not empty, the
  composite-key tuples of the parent rows written (the values at the key fields, in the
  order of the key fields) are pairwise distinct: no two of them are equal as Python
  tuples, and so no two of them are the same tuple.
\<close>

theorem parent_keys_unique:
  assumes run: "main_cli env listing key_fields num_rows multipliers foreign_map g = (written, err)"
      and keys: "key_list key_fields \<noteq> []"
      and w: "written \<noteq> []"
  shows "\<exists>pt pc prows rest ks.
           written = (pt, pc, prows) # rest
         \<and> map (\<lambda>r. composite_key r (key_list key_fields)) prows = map Inr ks
         \<and> (\<forall>i < length ks. \<forall>j < length ks. i \<noteq> j \<longrightarrow> \<not> list_all2 py_eq (ks ! i) (ks ! j))
         \<and> distinct ks"
proof -
  from main_cli_parent [OF run w] obtain pt pc prows seen g1 rest where
    wr: "written = (pt, pc, prows) # rest"
    and gp: "gen_parent_rows env pc (key_list key_fields) (nat num_rows) [] [] g = Inr (prows, seen, g1)"
    by blast
  have inv: "fresh_keys seen \<and> map (\<lambda>r. composite_key r (key_list key_fields)) prows = map Inr (rev seen)"
    using gen_parent_rows_invariant [OF gp keys] by simp
  then have f: "fresh_keys seen" and m: "map (\<lambda>r. composite_key r (key_list key_fields)) prows = map Inr (rev seen)"
    by simp_all
  have d: "distinct (rev seen)" using fresh_keys_distinct [OF f] by simp
  have p: "\<forall>i < length (rev seen). \<forall>j < length (rev seen). i \<noteq> j
             \<longrightarrow> \<not> list_all2 py_eq (rev seen ! i) (rev seen ! j)"
  proof (intro allI impI)
    fix i j assume i: "i < length (rev seen)" and j: "j < length (rev seen)" and ne: "i \<noteq> j"
    have "length seen - Suc i \<noteq> length seen - Suc j" using i j ne by simp
    then show "\<not> list_all2 py_eq (rev seen ! i) (rev seen ! j)"
      using fresh_keys_pairwise [OF f, of "length seen - Suc i" "length seen - Suc j"] i j
      by (simp add: rev_nth)
  qed
  show ?thesis using wr m p d by blast
qed

section \<open>Child rows\<close>

lemma map_of_update: "map_of (AList.update k v al) k' = (if k' = k then Some v else map_of al k')"
  by (simp add: update_conv')

lemma gen_child_row_other:
  "gen_child_row env cols fk prow crow0 g = Inr (crow, g') \<Longrightarrow> k \<notin> name ` set cols
   \<Longrightarrow> map_of crow k = map_of crow0 k"
proof (induction cols arbitrary: crow0 g)
  case Nil
  then show ?case by simp
next
  case (Cons d ds)
  from Cons.prems(1) obtain v g1 where
    r: "gen_child_row env ds fk prow (AList.update (name d) v crow0) g1 = Inr (crow, g')"
    by (auto split: option.splits sum.splits prod.splits)
  have "map_of crow k = map_of (AList.update (name d) v crow0) k"
    using Cons.IH [OF r] Cons.prems(2) by simp
  then show ?case using Cons.prems(2) by (simp add: map_of_update)
qed

lemma gen_child_row_copy:
  "gen_child_row env cols fk prow crow0 g = Inr (crow, g') \<Longrightarrow> k \<in> name ` set cols
   \<Longrightarrow> map_of fk k = Some pc \<Longrightarrow> map_of prow pc = Some v
   \<Longrightarrow> map_of crow k = Some v"
proof (induction cols arbitrary: crow0 g)
  case Nil
  then show ?case by simp
next
  case (Cons d ds)
  show ?case
  proof (cases "k \<in> name ` set ds")
    case True
    from Cons.prems(1) obtain w g1 where
      r: "gen_child_row env ds fk prow (AList.update (name d) w crow0) g1 = Inr (crow, g')"
      by (auto split: option.splits sum.splits prod.splits)
    show ?thesis using Cons.IH [OF r True Cons.prems(3,4)] .
  next
    case False
    then have kd: "name d = k" using Cons.prems(2) by auto
    from Cons.prems(1,3,4) kd have
      r: "gen_child_row env ds fk prow (AList.update k v crow0) g = Inr (crow, g')"
      by simp
    have "map_of crow k = map_of (AList.update k v crow0) k"
      using gen_child_row_other [OF r False] .
    then show ?thesis by (simp add: map_of_update)
  qed
qed

lemma gen_child_row_generated:
  "gen_child_row env cols fk prow crow0 g = Inr (crow, g') \<Longrightarrow> k \<in> name ` set cols
   \<Longrightarrow> (case map_of fk k of None \<Rightarrow> None | Some pc \<Rightarrow> map_of prow pc) = None
   \<Longrightarrow> \<exists>c \<in> set cols. name c = k
         \<and> (\<exists>h h' v. generate_random env c h = Inr (v, h') \<and> map_of crow k = Some v)"
proof (induction cols arbitrary: crow0 g)
  case Nil
  then show ?case by simp
next
  case (Cons d ds)
  show ?case
  proof (cases "k \<in> name ` set ds")
    case True
    from Cons.prems(1) obtain w g1 where
      r: "gen_child_row env ds fk prow (AList.update (name d) w crow0) g1 = Inr (crow, g')"
      by (auto split: option.splits sum.splits prod.splits)
    from Cons.IH [OF r True Cons.prems(3)] show ?thesis by auto
  next
    case False
    then have kd: "name d = k" using Cons.prems(2) by auto
    from Cons.prems(1,3) kd obtain v g1 where
      gr: "generate_random env d g = Inr (v, g1)"
      and r: "gen_child_row env ds fk prow (AList.update k v crow0) g1 = Inr (crow, g')"
      by (auto split: sum.splits prod.splits)
    have "map_of crow k = map_of (AList.update k v crow0) k"
      using gen_child_row_other [OF r False] .
    then have "map_of crow k = Some v" by (simp add: map_of_update)
    then show ?thesis using gr kd by auto
  qed
qed

lemma repeat_child_rows:
  "repeat_child env cols fk prow n acc g = Inr (rows, g')
   \<Longrightarrow> \<exists>new. rows = acc @ new \<and> length new = n
         \<and> (\<forall>crow \<in> set new. \<exists>h h'. gen_child_row env cols fk prow [] h = Inr (crow, h'))"
proof (induction n arbitrary: acc g)
  case 0
  then show ?case by simp
next
  case (Suc n)
  from Suc.prems obtain crow g1 where
    c: "gen_child_row env cols fk prow [] g = Inr (crow, g1)"
    and r: "repeat_child env cols fk prow n (acc @ [crow]) g1 = Inr (rows, g')"
    by (auto split: sum.splits prod.splits)
  from Suc.IH [OF r] obtain new where
    n: "rows = (acc @ [crow]) @ new" "length new = n"
       "\<forall>x \<in> set new. \<exists>h h'. gen_child_row env cols fk prow [] h = Inr (x, h')"
    by blast
  have "rows = acc @ (crow # new)" using n(1) by simp
  moreover have "length (crow # new) = Suc n" using n(2) by simp
  moreover have "\<forall>x \<in> set (crow # new). \<exists>h h'. gen_child_row env cols fk prow [] h = Inr (x, h')"
    using c n(3) by auto
  ultimately show ?case by blast
qed

lemma gen_child_rows_blocks:
  "gen_child_rows env cols fk m prows acc g = Inr (rows, g')
   \<Longrightarrow> \<exists>blocks. rows = acc @ concat blocks \<and> length blocks = length prows
         \<and> (\<forall>i < length prows. length (blocks ! i) = nat m
               \<and> (\<forall>crow \<in> set (blocks ! i).
                     \<exists>h h'. gen_child_row env cols fk (prows ! i) [] h = Inr (crow, h')))"
proof (induction prows arbitrary: acc g)
  case Nil
  then show ?case by simp
next
  case (Cons p ps)
  from Cons.prems obtain acc1 g1 where
    c: "repeat_child env cols fk p (nat m) acc g = Inr (acc1, g1)"
    and r: "gen_child_rows env cols fk m ps acc1 g1 = Inr (rows, g')"
    by (auto split: sum.splits prod.splits)
  from repeat_child_rows [OF c] obtain new where
    n: "acc1 = acc @ new" "length new = nat m"
       "\<forall>x \<in> set new. \<exists>h h'. gen_child_row env cols fk p [] h = Inr (x, h')"
    by blast
  from Cons.IH [OF r] obtain blocks where
    b: "rows = acc1 @ concat blocks" "length blocks = length ps"
       "\<forall>i < length ps. length (blocks ! i) = nat m
               \<and> (\<forall>crow \<in> set (blocks ! i).
                     \<exists>h h'. gen_child_row env cols fk (ps ! i) [] h = Inr (crow, h'))"
    by blast
  have 1: "rows = acc @ concat (new # blocks)" using n(1) b(1) by simp
  have 2: "length (new # blocks) = length (p # ps)" using b(2) by simp
  have 3: "\<forall>i < length (p # ps). length ((new # blocks) ! i) = nat m
               \<and> (\<forall>crow \<in> set ((new # blocks) ! i).
                     \<exists>h h'. gen_child_row env cols fk ((p # ps) ! i) [] h = Inr (crow, h'))"
  proof (intro allI impI)
    fix i assume "i < length (p # ps)"
    then show "length ((new # blocks) ! i) = nat m
               \<and> (\<forall>crow \<in> set ((new # blocks) ! i).
                     \<exists>h h'. gen_child_row env cols fk ((p # ps) ! i) [] h = Inr (crow, h'))"
      using n(2,3) b(3) by (cases i) auto
  qed
  show ?case using 1 2 3 by blast
qed

lemma nth_concat_blocks:
  "\<forall>b \<in> set bs. length b = m \<Longrightarrow> i < length bs \<Longrightarrow> j < m \<Longrightarrow> concat bs ! (i * m + j) = bs ! i ! j"
proof (induction bs arbitrary: i)
  case Nil
  then show ?case by simp
next
  case (Cons b bs)
  show ?case
  proof (cases i)
    case 0
    then show ?thesis using Cons.prems by (simp add: nth_append)
  next
    case (Suc i')
    have "concat (b # bs) ! (i * m + j) = concat bs ! (i' * m + j)"
      using Cons.prems(1) Suc by (simp add: nth_append)
    then show ?thesis using Cons.IH [of i'] Cons.prems Suc by simp
  qed
qed

lemma length_concat_blocks: "\<forall>b \<in> set bs. length b = m \<Longrightarrow> length (concat bs) = length bs * m"
  by (induction bs) simp_all

lemma child_rows_positions:
  assumes run: "gen_child_rows env cols fkey_map m prows [] g = Inr (crows, g')"
  shows "length crows = length prows * nat m
       \<and> (\<forall>i < length prows. \<forall>j < nat m. \<forall>c \<in> set cols.
            (\<forall>pc v. map_of fkey_map (name c) = Some pc \<and> map_of (prows ! i) pc = Some v
                \<longrightarrow> map_of (crows ! (i * nat m + j)) (name c) = Some v)
          \<and> ((map_of fkey_map (name c) = None
               \<or> (\<exists>pc. map_of fkey_map (name c) = Some pc \<and> map_of (prows ! i) pc = None))
                \<longrightarrow> (\<exists>c' \<in> set cols. name c' = name c
                      \<and> (\<exists>h h' v. generate_random env c' h = Inr (v, h')
                            \<and> map_of (crows ! (i * nat m + j)) (name c) = Some v))))"
proof -
  from gen_child_rows_blocks [OF run] obtain blocks where
    b: "crows = concat blocks" "length blocks = length prows"
       "\<forall>i < length prows. length (blocks ! i) = nat m
               \<and> (\<forall>crow \<in> set (blocks ! i).
                     \<exists>h h'. gen_child_row env cols fkey_map (prows ! i) [] h = Inr (crow, h'))"
    by auto
  have len: "\<forall>x \<in> set blocks. length x = nat m"
    using b(2,3) by (auto simp: in_set_conv_nth)
  have l: "length crows = length prows * nat m"
    using length_concat_blocks [OF len] b(1,2) by simp
  have rows: "\<exists>h h'. gen_child_row env cols fkey_map (prows ! i) [] h = Inr (crows ! (i * nat m + j), h')"
    if "i < length prows" "j < nat m" for i j
  proof -
    have "crows ! (i * nat m + j) = blocks ! i ! j"
      using nth_concat_blocks [OF len, of i j] that b(1,2) by simp
    moreover have "blocks ! i ! j \<in> set (blocks ! i)" using that b(3) by simp
    ultimately show ?thesis using b(3) that(1) by auto
  qed
  have cols: "(\<forall>pc v. map_of fkey_map (name c) = Some pc \<and> map_of (prows ! i) pc = Some v
                \<longrightarrow> map_of (crows ! (i * nat m + j)) (name c) = Some v)
          \<and> ((map_of fkey_map (name c) = None
               \<or> (\<exists>pc. map_of fkey_map (name c) = Some pc \<and> map_of (prows ! i) pc = None))
                \<longrightarrow> (\<exists>c' \<in> set cols. name c' = name c
                      \<and> (\<exists>h h' v. generate_random env c' h = Inr (v, h')
                            \<and> map_of (crows ! (i * nat m + j)) (name c) = Some v)))"
    if "i < length prows" "j < nat m" "c \<in> set cols" for i j c
  proof -
    from rows [OF that(1,2)] obtain h h' where
      r: "gen_child_row env cols fkey_map (prows ! i) [] h = Inr (crows ! (i * nat m + j), h')"
      by blast
    have k: "name c \<in> name ` set cols" using that(3) by simp
    have copy: "map_of (crows ! (i * nat m + j)) (name c) = Some v"
      if "map_of fkey_map (name c) = Some pc" "map_of (prows ! i) pc = Some v" for pc v
      using gen_child_row_copy [OF r k that] .
    have gen: "\<exists>c' \<in> set cols. name c' = name c
                \<and> (\<exists>h h' v. generate_random env c' h = Inr (v, h')
                      \<and> map_of (crows ! (i * nat m + j)) (name c) = Some v)"
      if "map_of fkey_map (name c) = None
          \<or> (\<exists>pc. map_of fkey_map (name c) = Some pc \<and> map_of (prows ! i) pc = None)"
    proof -
      have "(case map_of fkey_map (name c) of None \<Rightarrow> None | Some pc \<Rightarrow> map_of (prows ! i) pc) = None"
        using that by auto
      from gen_child_row_generated [OF r k this] show ?thesis .
    qed
    show ?thesis using copy gen by blast
  qed
  show ?thesis using l cols by blast
qed

lemma gen_child_row_total:
  "\<forall>c \<in> set cols. \<forall>h. \<exists>v h'. generate_random env c h = Inr (v, h')
   \<Longrightarrow> \<exists>crow g'. gen_child_row env cols fk prow crow0 g = Inr (crow, g')"
proof (induction cols arbitrary: crow0 g)
  case Nil
  then show ?case by simp
next
  case (Cons d ds)
  then have tl: "\<forall>c \<in> set ds. \<forall>h. \<exists>v h'. generate_random env c h = Inr (v, h')" by simp
  show ?case
  proof (cases "case map_of fk (name d) of None \<Rightarrow> None | Some pc \<Rightarrow> map_of prow pc")
    case None
    from Cons.prems obtain v g1 where "generate_random env d g = Inr (v, g1)" by force
    then show ?thesis using None Cons.IH [OF tl, of "AList.update (name d) v crow0" g1] by simp
  next
    case (Some v)
    then show ?thesis using Cons.IH [OF tl, of "AList.update (name d) v crow0" g] by simp
  qed
qed

lemma repeat_child_total:
  "\<forall>c \<in> set cols. \<forall>h. \<exists>v h'. generate_random env c h = Inr (v, h')
   \<Longrightarrow> \<exists>rows g'. repeat_child env cols fk prow n acc g = Inr (rows, g')"
proof (induction n arbitrary: acc g)
  case 0
  then show ?case by simp
next
  case (Suc n)
  from gen_child_row_total [OF Suc.prems, of fk prow "[]" g] obtain crow g1 where
    "gen_child_row env cols fk prow [] g = Inr (crow, g1)" by blast
  then show ?case using Suc.IH [OF Suc.prems, of "acc @ [crow]" g1] by simp
qed

lemma gen_child_rows_total:
  "\<forall>c \<in> set cols. \<forall>h. \<exists>v h'. generate_random env c h = Inr (v, h')
   \<Longrightarrow> \<exists>rows g'. gen_child_rows env cols fk m prows acc g = Inr (rows, g')"
proof (induction prows arbitrary: acc g)
  case Nil
  then show ?case by simp
next
  case (Cons p ps)
  from repeat_child_total [OF Cons.prems, of fk p "nat m" acc g] obtain acc1 g1 where
    "repeat_child env cols fk p (nat m) acc g = Inr (acc1, g1)" by blast
  then show ?case using Cons.IH [OF Cons.prems, of acc1 g1] by simp
qed

text \<open>
  Claim C5. For a child table with multiplier \<open>M\<close> and \<open>N\<close> parent rows, the child rows
  number \<open>N * M\<close> (no row for a multiplier below zero), and the row at position
  \<open>i * M + j\<close>, for \<open>i < N\<close> and \<open>j < M\<close>, belongs to parent row \<open>i\<close>: parent-row-major,
  repetition-minor order. In that row, a child column that the foreign-key map sends to
  a column the parent row holds has the parent row's value; every other child column
  has a value that the value generator returns for a column of that name. The rows
  are produced whenever the value generator does not fail on the child columns.
\<close>

theorem child_rows_blocks:
  fixes env :: "'f env"
  shows "(gen_child_rows env cols fkey_map m prows [] g = Inr (crows, g') \<longrightarrow>
          length crows = length prows * nat m
        \<and> (\<forall>i < length prows. \<forall>j < nat m. \<forall>c \<in> set cols.
             (\<forall>pc v. map_of fkey_map (name c) = Some pc \<and> map_of (prows ! i) pc = Some v
                 \<longrightarrow> map_of (crows ! (i * nat m + j)) (name c) = Some v)
           \<and> ((map_of fkey_map (name c) = None
                \<or> (\<exists>pc. map_of fkey_map (name c) = Some pc \<and> map_of (prows ! i) pc = None))
                 \<longrightarrow> (\<exists>c' \<in> set cols. name c' = name c
                       \<and> (\<exists>h h' v. generate_random env c' h = Inr (v, h')
                             \<and> map_of (crows ! (i * nat m + j)) (name c) = Some v)))))
       \<and> ((\<forall>c \<in> set cols. \<forall>h. \<exists>v h'. generate_random env c h = Inr (v, h'))
            \<longrightarrow> (\<exists>rows h'. gen_child_rows env cols fkey_map m prows [] g = Inr (rows, h')))"
  using child_rows_positions [of env cols fkey_map m prows g crows g']
    gen_child_rows_total [of cols env fkey_map m prows "[]" g]
  by blast

section \<open>The scenario of two tables\<close>

text \<open>
  The schema files \<open>customer_sql\<close> and \<open>order_sql\<close>, the key field \<open>id\<close>, three parent
  rows, the multiplier \<open>Order=2\<close> and the foreign-key map \<open>customer_id=id\<close>.
\<close>

lemma parse_customer: "parse_schema_file customer_sql = (Some ''Customer'', customer_cols)"
  by code_simp

lemma parse_order: "parse_schema_file order_sql = (Some ''Order'', order_cols)"
  by code_simp

lemma parse_dir_customer_order:
  assumes "endswith (lower f1) ''.sql''" "endswith (lower f2) ''.sql''"
  shows "parse_schema_dir [(f1, customer_sql), (f2, order_sql)] [] =
           [(''Customer'', customer_cols), (''Order'', order_cols)]"
  using assms by (simp add: parse_customer parse_order customer_cols_def order_cols_def)


lemma sql_names: "endswith (lower ''customer.sql'') ''.sql''" "endswith (lower ''order.sql'') ''.sql''"
  by code_simp+

lemma key_list_id: "key_list ''id'' = [''id'']"
  by code_simp

lemma mult_order_2: "mult_map_of (parse_keyval_map ''Order=2'') = Inr [(''Order'', 2)]"
  by code_simp

lemma fkey_customer_id: "parse_keyval_map ''customer_id=id'' = [(''customer_id'', ''id'')]"
  by code_simp

lemma generate_random_integer:
  "\<not> any_in [''bigint'', ''int8''] (t_norm c) \<Longrightarrow> \<not> any_in [''smallint'', ''int2''] (t_norm c)
   \<Longrightarrow> any_in [''integer'', ''int'', ''int4''] (t_norm c)
   \<Longrightarrow> generate_random env c g = Inr (int_between 1000000 g)"
  by (simp add: generate_random_def Let_def)

lemma generate_random_varchar:
  "varchar_column c \<Longrightarrow> first_len (strip (lens c)) 32 = Inr n
   \<Longrightarrow> generate_random env c g = Inr (VStr (fst (char_up_to n g)), snd (char_up_to n g))"
  by (simp add: generate_random_def varchar_column_def Let_def split_def)

lemma integer_col:
  "\<not> any_in [''bigint'', ''int8''] (t_norm \<lparr>name = n, type = ''integer'', lens = ''''\<rparr>)"
  "\<not> any_in [''smallint'', ''int2''] (t_norm \<lparr>name = n, type = ''integer'', lens = ''''\<rparr>)"
  "any_in [''integer'', ''int'', ''int4''] (t_norm \<lparr>name = n, type = ''integer'', lens = ''''\<rparr>)"
  by (simp_all add: t_norm_def any_in_def lower_def lower_char_def ascii_uppercase_def ascii_lowercase_def
        strip_def lstrip_def rstrip_def is_space_def)

lemma gen_integer_col:
  "generate_random env \<lparr>name = n, type = ''integer'', lens = ''''\<rparr> g = Inr (int_between 1000000 g)"
  by (rule generate_random_integer) (rule integer_col)+

lemma varchar5_col:
  "varchar_column \<lparr>name = n, type = ''varchar'', lens = ''5''\<rparr>"
  "first_len (strip (lens \<lparr>name = n, type = ''varchar'', lens = ''5''\<rparr>)) 32 = Inr 5"
   apply (simp add: varchar_column_def t_norm_def any_in_def lower_def lower_char_def ascii_uppercase_def ascii_lowercase_def
        strip_def lstrip_def rstrip_def is_space_def)
  apply (simp add: first_len_def py_int_def int_space_def max_str_digits_def int_digits_def is_digit_def digit_val_def digits_def
        strip_def lstrip_def rstrip_def is_space_def)
  done

lemma gen_varchar5_col:
  "generate_random env \<lparr>name = n, type = ''varchar'', lens = ''5''\<rparr> g
     = Inr (VStr (fst (char_up_to 5 g)), snd (char_up_to 5 g))"
  by (rule generate_random_varchar) (rule varchar5_col)+

lemma try_row_numeral:
  "try_row env cols keys seen (numeral k) g =
     (case gen_row env cols [] g of
        Inl e \<Rightarrow> Inl e
      | Inr (row, g') \<Rightarrow>
          if keys \<noteq> [] then
            (case composite_key row keys of
               Inl e \<Rightarrow> Inl e
             | Inr ckey \<Rightarrow>
                 if tuple_in ckey seen then try_row env cols keys seen (pred_numeral k) g'
                 else Inr (row, ckey # seen, g'))
          else Inr (row, seen, g'))"
  by (subst numeral_eq_Suc, subst try_row.simps(2)) (rule refl)

lemma gen_parent_rows_numeral:
  "gen_parent_rows env cols keys (numeral k) seen rows g =
     (case try_row env cols keys seen 200 g of
        Inl e \<Rightarrow> Inl e
      | Inr (row, seen', g') \<Rightarrow> gen_parent_rows env cols keys (pred_numeral k) seen' (rows @ [row]) g')"
  by (subst numeral_eq_Suc, subst gen_parent_rows.simps(2)) (rule refl)

lemma repeat_child_numeral:
  "repeat_child env cols fk prow (numeral k) acc g =
     (case gen_child_row env cols fk prow [] g of
        Inl e \<Rightarrow> Inl e
      | Inr (crow, g') \<Rightarrow> repeat_child env cols fk prow (pred_numeral k) (acc @ [crow]) g')"
  by (subst numeral_eq_Suc, subst repeat_child.simps(2)) (rule refl)

lemma random_letters_numeral:
  "random_letters (numeral k) g =
     (let (r, g1) = draw g; (cs, g2) = random_letters (pred_numeral k) g1
      in (ascii_letters ! (r mod 52) # cs, g2))"
  by (subst numeral_eq_Suc, subst random_letters.simps(2)) (rule refl)

lemma gen_row_customer:
  "gen_row env customer_cols [] g =
     Inr ([(''id'', fst (int_between 1000000 g)),
           (''code'', VStr (fst (char_up_to 5 (snd (int_between 1000000 g :: 'f pyval \<times> rng)))))],
          snd (char_up_to 5 (snd (int_between 1000000 g :: 'f pyval \<times> rng))))"
  for env :: "'f env"
  by (simp add: customer_cols_def gen_integer_col gen_varchar5_col split_def)

lemma draw_affine: "draw (affine_rng a b) = (b, affine_rng a (a + b))"
  by (simp add: draw_def affine_rng_def fun_eq_iff)

lemma randint_affine:
  "randint lo hi (affine_rng a b) = (lo + int (b mod nat (hi - lo + 1)), affine_rng a (a + b))"
  by (simp add: randint_def draw_affine)

lemma customer_rows_run:
  "gen_parent_rows env0 customer_cols [''id''] 3 [] [] (affine_rng 7 3) = Inr (customer_rows_example, [[VInt 52], [VInt 24], [VInt 3]], affine_rng 7 101)"
  by (simp add: customer_rows_example_def order_rows_example_def gen_parent_rows_numeral try_row_numeral gen_row_customer
      int_between_def randint_affine draw_affine char_up_to_def pystr_def split_def Let_def
      random_letters_numeral ascii_letters_def ascii_lowercase_def ascii_uppercase_def tuple_in_def)

lemma select_customer_first:
  "select_parent [(''Customer'', customer_cols), (''Order'', order_cols)] ''id'' = ''Customer''"
  by (simp add: select_parent_def key_list_id customer_cols_def)


lemma gen_child_row_order:
  "map_of prow ''id'' = Some v \<Longrightarrow>
   gen_child_row env order_cols [(''customer_id'', ''id'')] prow [] g =
     Inr ([(''id'', fst (int_between 1000000 g)), (''customer_id'', v)],
          snd (int_between 1000000 g :: 'f pyval \<times> rng))"
  for env :: "'f env"
  by (simp add: order_cols_def gen_integer_col split_def)

lemma order_rows_run:
  "gen_child_rows env0 order_cols [(''customer_id'', ''id'')] 2 customer_rows_example [] (affine_rng 7 101) = Inr (order_rows_example, affine_rng 7 143)"
  by (simp add: customer_rows_example_def order_rows_example_def repeat_child_numeral gen_child_row_order int_between_def randint_affine split_def Let_def)

lemma run_customer_first:
  "main_cli env0 [(''customer.sql'', customer_sql), (''order.sql'', order_sql)] ''id'' 3 ''Order=2'' ''customer_id=id'' (affine_rng 7 3) = ([(''Customer'', customer_cols, customer_rows_example), (''Order'', order_cols, order_rows_example)], None)"
  by (simp add: main_cli_def parse_dir_customer_order [OF sql_names] select_customer_first key_list_id
      mult_order_2 fkey_customer_id customer_rows_run order_rows_run Let_def
      del: parse_schema_dir.simps gen_child_rows.simps gen_parent_rows.simps)




text \<open>The parent rows of the example run have the ids 3, 24 and 52.\<close>

theorem parent_keys_unique_witness:
  "main_cli env0 [(''customer.sql'', customer_sql), (''order.sql'', order_sql)] ''id'' 3 ''Order=2''
      ''customer_id=id'' (affine_rng 7 3)
     = ([(''Customer'', customer_cols, customer_rows_example), (''Order'', order_cols, order_rows_example)], None)
   \<and> key_list ''id'' \<noteq> []
   \<and> (\<exists>pt pc prows rest ks.
         [(''Customer'', customer_cols, customer_rows_example), (''Order'', order_cols, order_rows_example)]
           = (pt, pc, prows) # rest
       \<and> map (\<lambda>r. composite_key r (key_list ''id'')) prows = map Inr ks
       \<and> (\<forall>i < length ks. \<forall>j < length ks. i \<noteq> j \<longrightarrow> \<not> list_all2 py_eq (ks ! i) (ks ! j))
       \<and> distinct ks)"
proof -
  have k: "key_list ''id'' \<noteq> []" by (simp add: key_list_id)
  have w: "[(''Customer'', customer_cols, customer_rows_example), (''Order'', order_cols, order_rows_example)] \<noteq> []"
    by simp
  show ?thesis
    using run_customer_first k parent_keys_unique [OF run_customer_first k w] by blast
qed

text \<open>
  In the example run the child row at position \<open>1 * 2 + 1\<close> belongs to the second parent
  row: its \<open>customer_id\<close> is that row's \<open>id\<close>, and its own \<open>id\<close> is a generated value.
\<close>

theorem child_rows_blocks_witness:
  "gen_child_rows env0 order_cols [(''customer_id'', ''id'')] 2 customer_rows_example [] (affine_rng 7 101)
     = Inr (order_rows_example, affine_rng 7 143)
   \<and> length order_rows_example = length customer_rows_example * nat 2
   \<and> \<lparr>name = ''customer_id'', type = ''integer'', lens = ''''\<rparr> \<in> set order_cols
   \<and> map_of [(''customer_id'', ''id'')] ''customer_id'' = Some ''id''
   \<and> map_of (customer_rows_example ! 1) ''id'' = Some (VInt 24)
   \<and> map_of (order_rows_example ! (1 * nat 2 + 1)) ''customer_id'' = Some (VInt 24)
   \<and> \<lparr>name = ''id'', type = ''integer'', lens = ''''\<rparr> \<in> set order_cols
   \<and> map_of [(''customer_id'', ''id'')] ''id'' = None
   \<and> (\<exists>c' \<in> set order_cols. name c' = ''id''
         \<and> (\<exists>h h' v. generate_random env0 c' h = Inr (v, h')
               \<and> map_of (order_rows_example ! (1 * nat 2 + 1)) ''id'' = Some v))
   \<and> (\<forall>h. \<exists>v h'. generate_random env0 \<lparr>name = ''id'', type = ''integer'', lens = ''''\<rparr> h = Inr (v, h'))
   \<and> (\<forall>h. \<exists>v h'. generate_random env0 \<lparr>name = ''customer_id'', type = ''integer'', lens = ''''\<rparr> h
                      = Inr (v, h'))
   \<and> (\<forall>ps g. \<exists>rows h'. gen_child_rows env0 order_cols [(''customer_id'', ''id'')] 2 ps [] g = Inr (rows, h'))"
proof -
  have tot: "\<forall>h. \<exists>v h'. generate_random env0 \<lparr>name = n, type = ''integer'', lens = ''''\<rparr> h = Inr (v, h')"
    for n
    by (simp add: gen_integer_col int_between_def split_def)
  then have all: "\<forall>c \<in> set order_cols. \<forall>h. \<exists>v h'. generate_random env0 c h = Inr (v, h')"
    by (simp add: order_cols_def)
  have r3: "\<forall>ps g. \<exists>rows h'. gen_child_rows env0 order_cols [(''customer_id'', ''id'')] 2 ps [] g = Inr (rows, h')"
    using child_rows_blocks [of env0 order_cols "[(''customer_id'', ''id'')]" 2] all by blast
  note t = child_rows_blocks [of env0 order_cols "[(''customer_id'', ''id'')]" 2 customer_rows_example
      "affine_rng 7 101" order_rows_example "affine_rng 7 143", THEN conjunct1, rule_format, OF order_rows_run]
  have l: "length order_rows_example = length customer_rows_example * nat 2"
    using t by blast
  have i: "(1::nat) < length customer_rows_example" by (simp add: customer_rows_example_def)
  have j: "(1::nat) < nat 2" by simp
  have c1: "\<lparr>name = ''customer_id'', type = ''integer'', lens = ''''\<rparr> \<in> set order_cols"
    by (simp add: order_cols_def)
  have c2: "\<lparr>name = ''id'', type = ''integer'', lens = ''''\<rparr> \<in> set order_cols"
    by (simp add: order_cols_def)
  have f1: "map_of [(''customer_id'', ''id'')] ''customer_id'' = Some ''id''" by simp
  have f2: "map_of [(''customer_id'', ''id'')] ''id'' = None" by simp
  have p: "map_of (customer_rows_example ! 1) ''id'' = Some (VInt 24)"
    by (simp add: customer_rows_example_def)
  from t i j c1 have
    "\<forall>pc v. map_of [(''customer_id'', ''id'')] (name \<lparr>name = ''customer_id'', type = ''integer'', lens = ''''\<rparr>) = Some pc
              \<and> map_of (customer_rows_example ! 1) pc = Some v
        \<longrightarrow> map_of (order_rows_example ! (1 * nat 2 + 1))
              (name \<lparr>name = ''customer_id'', type = ''integer'', lens = ''''\<rparr>) = Some v"
    by blast
  then have r1: "map_of (order_rows_example ! (1 * nat 2 + 1)) ''customer_id'' = Some (VInt 24)"
    using f1 p by simp
  from t i j c2 have
    "(map_of [(''customer_id'', ''id'')] (name \<lparr>name = ''id'', type = ''integer'', lens = ''''\<rparr>) = None
       \<or> (\<exists>pc. map_of [(''customer_id'', ''id'')] (name \<lparr>name = ''id'', type = ''integer'', lens = ''''\<rparr>) = Some pc
               \<and> map_of (customer_rows_example ! 1) pc = None))
      \<longrightarrow> (\<exists>c' \<in> set order_cols. name c' = name \<lparr>name = ''id'', type = ''integer'', lens = ''''\<rparr>
             \<and> (\<exists>h h' v. generate_random env0 c' h = Inr (v, h')
                   \<and> map_of (order_rows_example ! (1 * nat 2 + 1))
                         (name \<lparr>name = ''id'', type = ''integer'', lens = ''''\<rparr>) = Some v))"
    by blast
  then have r2: "\<exists>c' \<in> set order_cols. name c' = ''id''
         \<and> (\<exists>h h' v. generate_random env0 c' h = Inr (v, h')
               \<and> map_of (order_rows_example ! (1 * nat 2 + 1)) ''id'' = Some v)"
    using f2 by simp
  show ?thesis using order_rows_run l c1 c2 f1 f2 p r1 r2 r3 tot by blast
qed





lemma customer_row_shape:
  fixes env :: "'f env"
  shows "\<exists>n s h'. gen_row env customer_cols [] h = Inr ([(''id'', VInt n), (''code'', VStr s)], h')"
  by (simp add: gen_row_customer int_between_def split_def Let_def)








section \<open>Key fields that are no columns of the parent\<close>

lemma parse_dir_customer_only:
  "parse_schema_dir [(''customer.sql'', customer_sql)] [] = [(''Customer'', customer_cols)]"
  using sql_names(1) by (simp add: parse_customer customer_cols_def)

lemma key_list_zzz: "key_list ''zzz'' = [''zzz'']"
  by code_simp

text \<open>
  Claim C4 says that parent-row generation raises a fatal error only when 200
  attempts in a row produce a composite key seen before, and accepts \<open>numRows\<close> rows
  otherwise. With one table \<open>Customer\<close> and the key field \<open>zzz\<close>, which no table has, the
  first table stays the parent, and the first attempt for the first row reads the row
  at \<open>zzz\<close>: the run stops with a \<open>KeyError\<close>, whatever the random source, with no
  duplicate and no row accepted. Where every key field is a column of the parent and
  the value generator does not fail, the only error is the exhaustion of the keys
  (\<open>gen_parent_rows_error\<close>) and a run without it accepts \<open>numRows\<close> rows
  (\<open>gen_parent_rows_length\<close>), none with a key seen before (\<open>try_row_accepts\<close>).
\<close>

theorem missing_key_field_raises_key_error:
  fixes env :: "'f env"
  shows "main_cli env [(''customer.sql'', customer_sql)] ''zzz'' 1 [] [] g = ([], Some (KeyError ''zzz''))"
proof -
  from customer_row_shape [of env g] obtain n s h' where
    r: "gen_row env customer_cols [] g = Inr ([(''id'', VInt n), (''code'', VStr s)], h')" by blast
  have t: "try_row env customer_cols [''zzz''] [] 200 g = Inl (KeyError ''zzz'')"
    by (simp add: try_row_numeral r)
  have p: "gen_parent_rows env customer_cols [''zzz''] (Suc 0) [] [] g = Inl (KeyError ''zzz'')"
    using t by simp
  have sel: "select_parent [(''Customer'', customer_cols)] ''zzz'' = ''Customer''"
    by (simp add: select_parent_def key_list_zzz customer_cols_def)
  show ?thesis
    by (simp add: main_cli_def parse_dir_customer_only sel key_list_zzz p Let_def
          del: parse_schema_dir.simps gen_parent_rows.simps)
qed

section \<open>Constraint lines\<close>

lemma constraint_line_shape:
  assumes "startswith_any (lower line) constraint_starts"
  shows "line \<noteq> [] \<and> \<not> startswith line '')''"
proof (cases line)
  case Nil
  then show ?thesis using assms by (simp add: startswith_any_def constraint_starts_def lower_def)
next
  case (Cons c cs)
  have "c \<noteq> CHR '')''"
  proof
    assume "c = CHR '')''"
    then have "lower_char c = CHR '')''"
      by (simp add: lower_char_def ascii_uppercase_def ascii_lowercase_def)
    then show False
      using assms Cons by (simp add: startswith_any_def constraint_starts_def lower_def)
  qed
  then show ?thesis using Cons by simp
qed

text \<open>
  Claim C9. The skip of constraint lines tests a prefix of the text, not a whole word:
  once the table name is found, a line whose trimmed, lowercased text starts with the
  characters of one of the eight keywords adds no column (it is passed over, or, when it
  also ends with \<open>);\<close>, it ends the column list). So the columns \<open>key_id\<close>, \<open>checksum\<close>,
  \<open>index_no\<close> and \<open>references_count\<close> of the file \<open>keyword_named_sql\<close> are left out of the
  parsed columns, although each of their lines matches the column pattern.
\<close>

theorem constraint_prefix_drops_column:
  "(startswith_any (lower (strip raw)) constraint_starts \<longrightarrow>
      parse_lines (Some t) cols (raw # rest) =
        (if endswith (strip raw) '');'' then (Some t, cols) else parse_lines (Some t) cols rest))
   \<and> parse_schema_file keyword_named_sql = (Some ''t'', [\<lparr>name = ''name'', type = ''text'', lens = ''''\<rparr>])
   \<and> map (\<lambda>l. map_option (\<lambda>m. (group m ''col'', group m ''type'', group m ''lens'')) (re_match col_re l))
         [''key_id integer'', ''checksum varchar(32)'', ''index_no int'', ''references_count bigint'']
       = [Some (''key_id'', ''integer'', ''''), Some (''checksum'', ''varchar'', ''32''),
          Some (''index_no'', ''int'', ''''), Some (''references_count'', ''bigint'', '''')]"
proof -
  have a: "parse_lines (Some t) cols (raw # rest) =
        (if endswith (strip raw) '');'' then (Some t, cols) else parse_lines (Some t) cols rest)"
    if h: "startswith_any (lower (strip raw)) constraint_starts"
    using constraint_line_shape [OF h] h by (simp add: Let_def)
  have b: "parse_schema_file keyword_named_sql = (Some ''t'', [\<lparr>name = ''name'', type = ''text'', lens = ''''\<rparr>])"
    by code_simp
  have c: "map (\<lambda>l. map_option (\<lambda>m. (group m ''col'', group m ''type'', group m ''lens'')) (re_match col_re l))
         [''key_id integer'', ''checksum varchar(32)'', ''index_no int'', ''references_count bigint'']
       = [Some (''key_id'', ''integer'', ''''), Some (''checksum'', ''varchar'', ''32''),
          Some (''index_no'', ''int'', ''''), Some (''references_count'', ''bigint'', '''')]"
    by code_simp
  show ?thesis using a b c by blast
qed

text \<open>
  A line \<open>Key_id integer,\<close> is passed over, and a line \<open>checksum int);\<close> ends the column
  list.
\<close>

theorem constraint_prefix_drops_column_witness:
  "startswith_any (lower (strip (''  Key_id integer,'' @ [CHR 0x0A]))) constraint_starts
   \<and> \<not> endswith (strip (''  Key_id integer,'' @ [CHR 0x0A])) '');''
   \<and> parse_lines (Some ''t'') [] [''  Key_id integer,'' @ [CHR 0x0A], ''  name text'' @ [CHR 0x0A]]
       = parse_lines (Some ''t'') [] [''  name text'' @ [CHR 0x0A]]
   \<and> parse_lines (Some ''t'') [] [''  name text'' @ [CHR 0x0A]]
       = (Some ''t'', [\<lparr>name = ''name'', type = ''text'', lens = ''''\<rparr>])
   \<and> startswith_any (lower (strip ''checksum int);'')) constraint_starts
   \<and> endswith (strip ''checksum int);'') '');''
   \<and> parse_lines (Some ''t'') [] [''checksum int);'', ''name text''] = (Some ''t'', [])"
proof -
  have h1: "startswith_any (lower (strip (''  Key_id integer,'' @ [CHR 0x0A]))) constraint_starts"
    by code_simp
  have h2: "\<not> endswith (strip (''  Key_id integer,'' @ [CHR 0x0A])) '');''"
    by code_simp
  have h3: "parse_lines (Some ''t'') [] [''  name text'' @ [CHR 0x0A]]
       = (Some ''t'', [\<lparr>name = ''name'', type = ''text'', lens = ''''\<rparr>])"
    by code_simp
  have h4: "startswith_any (lower (strip ''checksum int);'')) constraint_starts"
    by code_simp
  have h5: "endswith (strip ''checksum int);'') '');''"
    by code_simp
  have r1: "parse_lines (Some ''t'') [] [''  Key_id integer,'' @ [CHR 0x0A], ''  name text'' @ [CHR 0x0A]]
       = parse_lines (Some ''t'') [] [''  name text'' @ [CHR 0x0A]]"
    using constraint_prefix_drops_column [of "''  Key_id integer,'' @ [CHR 0x0A]" "''t''" "[]"
        "[''  name text'' @ [CHR 0x0A]]"] h1 h2
    by presburger
  have r2: "parse_lines (Some ''t'') [] [''checksum int);'', ''name text''] = (Some ''t'', [])"
    using constraint_prefix_drops_column [of "''checksum int);''" "''t''" "[]" "[''name text'']"] h4 h5
    by presburger
  show ?thesis using h1 h2 h3 h4 h5 r1 r2 by blast
qed

text \<open>A quoted name does not start the line with the keyword, and the column is kept.\<close>

lemma quoted_keyword_name_is_parsed:
  "parse_lines (Some ''t'') [] [[CHR 0x22] @ ''key_id'' @ [CHR 0x22] @ '' integer,'']
     = (Some ''t'', [\<lparr>name = ''key_id'', type = ''integer'', lens = []\<rparr>])"
  by code_simp

section \<open>SQL literals\<close>

lemma digit_char_in_digits: "d < 10 \<Longrightarrow> digit_char d \<in> set digits"
proof -
  assume "d < 10"
  moreover have "length digits = 10" by (simp add: digits_def)
  ultimately have "digits ! d \<in> set digits" by (simp del: set_conv_nth)
  then show ?thesis by (simp add: digit_char_def)
qed

lemma digit_cases: "d < 10 \<Longrightarrow> d = 0 \<or> d = 1 \<or> d = 2 \<or> d = 3 \<or> d = 4 \<or> d = 5 \<or> d = 6 \<or> d = 7 \<or> d = 8 \<or> d = (9::nat)"
  by arith

lemma digit_val_digit_char: "d < 10 \<Longrightarrow> digit_val (digit_char d) = d"
  using digit_cases [of d] by (auto simp: digit_val_def digit_char_def digits_def)

lemma str_nat_digits: "set (str_nat n) \<subseteq> set digits"
proof (induction n rule: str_nat.induct)
  case (1 n)
  show ?case
  proof (cases "n < 10")
    case True
    then show ?thesis by (subst str_nat.simps) (simp add: digit_char_in_digits)
  next
    case False
    then show ?thesis using 1 by (subst str_nat.simps) (simp add: digit_char_in_digits)
  qed
qed

lemma str_nat_nonempty: "str_nat n \<noteq> []"
  by (subst str_nat.simps) simp

lemma str_nat_length: "n < 10 ^ w \<Longrightarrow> 0 < w \<Longrightarrow> length (str_nat n) \<le> w"
proof (induction n arbitrary: w rule: str_nat.induct)
  case (1 n)
  show ?case
  proof (cases "n < 10")
    case True
    then show ?thesis using "1.prems" by (subst str_nat.simps) simp
  next
    case False
    obtain v where w: "w = Suc v" using "1.prems"(2) by (cases w) auto
    have "v \<noteq> 0" using False "1.prems"(1) w by (cases v) auto
    then have v: "0 < v" by simp
    have "n div 10 < 10 ^ v" using "1.prems"(1) w by (simp add: less_mult_imp_div_less)
    then have "length (str_nat (n div 10)) \<le> v" using "1.IH" [OF False _ v] by simp
    then show ?thesis using False w by (subst str_nat.simps) simp
  qed
qed

lemma nat_of_digits_snoc: "nat_of_digits (t @ [c]) = 10 * nat_of_digits t + digit_val c"
  by (simp add: nat_of_digits_def)

lemma nat_of_digits_str_nat: "nat_of_digits (str_nat n) = n"
proof (induction n rule: str_nat.induct)
  case (1 n)
  show ?case
  proof (cases "n < 10")
    case True
    then show ?thesis
      by (subst str_nat.simps) (simp add: nat_of_digits_def digit_val_digit_char)
  next
    case False
    then show ?thesis
      using 1 by (subst str_nat.simps) (simp add: nat_of_digits_snoc digit_val_digit_char)
  qed
qed

lemma nat_of_digits_zeros: "nat_of_digits (replicate k CHR ''0'' @ t) = nat_of_digits t"
proof (induction k)
  case 0
  then show ?case by simp
next
  case (Suc k)
  have "foldl (\<lambda>a c. 10 * a + digit_val c) 0 (CHR ''0'' # replicate k CHR ''0'' @ t)
          = foldl (\<lambda>a c. 10 * a + digit_val c) 0 (replicate k CHR ''0'' @ t)"
    by (simp add: digit_val_def digits_def)
  then show ?case using Suc by (simp add: nat_of_digits_def)
qed

lemma zfill_props:
  assumes "n < 10 ^ w" "0 < w"
  shows "length (zfill w n) = w" "set (zfill w n) \<subseteq> set digits" "nat_of_digits (zfill w n) = n"
proof -
  have l: "length (str_nat n) \<le> w" using assms by (rule str_nat_length)
  show "length (zfill w n) = w" using l by (simp add: zfill_def)
  have "CHR ''0'' \<in> set digits" by (simp add: digits_def)
  then show "set (zfill w n) \<subseteq> set digits" using str_nat_digits [of n] by (auto simp: zfill_def)
  show "nat_of_digits (zfill w n) = n" by (simp add: zfill_def nat_of_digits_zeros nat_of_digits_str_nat)
qed

lemma matches_digits:
  assumes "length t = length fmt" "set t \<subseteq> set digits" "set fmt \<subseteq> set ascii_uppercase"
  shows "matches_format fmt t"
proof -
  have "fmt ! i \<in> set ascii_uppercase \<and> is_digit (t ! i)" if "i < length fmt" for i
  proof -
    have "fmt ! i \<in> set fmt" "t ! i \<in> set t" using that assms(1) by simp_all
    then show ?thesis using assms(2,3) by (auto simp: is_digit_def)
  qed
  then show ?thesis using assms(1) by (simp add: matches_format_def list_all2_conv_all_nth)
qed

lemma matches_literal: "set fmt \<inter> set ascii_uppercase = {} \<Longrightarrow> matches_format fmt fmt"
proof -
  assume a: "set fmt \<inter> set ascii_uppercase = {}"
  have "fmt ! i \<notin> set ascii_uppercase" if "i < length fmt" for i
  proof -
    have "fmt ! i \<in> set fmt" using that by simp
    then show ?thesis using a by blast
  qed
  then show ?thesis by (simp add: matches_format_def list_all2_conv_all_nth)
qed

lemma matches_append:
  "matches_format f1 t1 \<Longrightarrow> matches_format f2 t2 \<Longrightarrow> matches_format (f1 @ f2) (t1 @ t2)"
  by (simp add: matches_format_def list_all2_appendI)

lemma replace_quote: "replace [quote_chr] [quote_chr, quote_chr] s = sql_escape s"
  by (induction s) (simp_all add: sql_escape_def)

lemma field_at:
  "length a = pos \<Longrightarrow> length b = len \<Longrightarrow> field (a @ b @ c) pos len = nat_of_digits b"
  by (simp add: field_def)

lemma field_left: "pos + len \<le> length a \<Longrightarrow> field (a @ b) pos len = field a pos len"
  by (simp add: field_def)

lemma field_right: "length a = k \<Longrightarrow> field (a @ b) (k + pos) len = field b pos len"
  by (auto simp: field_def)

lemma date_text:
  assumes "y < 10000" "m < 100" "d < 100"
  shows "matches_format ''YYYY-MM-DD'' (date_isoformat (Date y m d))"
    and "length (date_isoformat (Date y m d)) = 10"
    and "field (date_isoformat (Date y m d)) 0 4 = y"
    and "field (date_isoformat (Date y m d)) 5 2 = m"
    and "field (date_isoformat (Date y m d)) 8 2 = d"
proof -
  have y: "length (zfill 4 y) = 4" "set (zfill 4 y) \<subseteq> set digits" "nat_of_digits (zfill 4 y) = y"
    using zfill_props [of y 4] assms(1) by simp_all
  have m: "length (zfill 2 m) = 2" "set (zfill 2 m) \<subseteq> set digits" "nat_of_digits (zfill 2 m) = m"
    using zfill_props [of m 2] assms(2) by simp_all
  have d: "length (zfill 2 d) = 2" "set (zfill 2 d) \<subseteq> set digits" "nat_of_digits (zfill 2 d) = d"
    using zfill_props [of d 2] assms(3) by simp_all
  have my: "matches_format ''YYYY'' (zfill 4 y)"
    using y by (intro matches_digits) (simp_all add: ascii_uppercase_def)
  have mm: "matches_format ''MM'' (zfill 2 m)"
    using m by (intro matches_digits) (simp_all add: ascii_uppercase_def)
  have md: "matches_format ''DD'' (zfill 2 d)"
    using d by (intro matches_digits) (simp_all add: ascii_uppercase_def)
  have dash: "matches_format ''-'' ''-''"
    by (rule matches_literal) (simp add: ascii_uppercase_def)
  have "matches_format (''YYYY'' @ ''-'' @ ''MM'' @ ''-'' @ ''DD'')
          (zfill 4 y @ ''-'' @ zfill 2 m @ ''-'' @ zfill 2 d)"
    by (intro matches_append my mm md dash)
  then show "matches_format ''YYYY-MM-DD'' (date_isoformat (Date y m d))" by simp
  show "length (date_isoformat (Date y m d)) = 10" using y m d by simp
  show "field (date_isoformat (Date y m d)) 0 4 = y" using y by (simp add: field_def)
  show "field (date_isoformat (Date y m d)) 5 2 = m" using y m by (simp add: field_def)
  show "field (date_isoformat (Date y m d)) 8 2 = d" using y m d by (simp add: field_def)
qed

lemma time_text:
  assumes "h < 100" "m < 100" "s < 100"
  shows "matches_format ''HH:MM:SS'' (time_isoformat (Time h m s))"
    and "length (time_isoformat (Time h m s)) = 8"
    and "field (time_isoformat (Time h m s)) 0 2 = h"
    and "field (time_isoformat (Time h m s)) 3 2 = m"
    and "field (time_isoformat (Time h m s)) 6 2 = s"
proof -
  have h: "length (zfill 2 h) = 2" "set (zfill 2 h) \<subseteq> set digits" "nat_of_digits (zfill 2 h) = h"
    using zfill_props [of h 2] assms(1) by simp_all
  have m: "length (zfill 2 m) = 2" "set (zfill 2 m) \<subseteq> set digits" "nat_of_digits (zfill 2 m) = m"
    using zfill_props [of m 2] assms(2) by simp_all
  have s: "length (zfill 2 s) = 2" "set (zfill 2 s) \<subseteq> set digits" "nat_of_digits (zfill 2 s) = s"
    using zfill_props [of s 2] assms(3) by simp_all
  have mh: "matches_format ''HH'' (zfill 2 h)"
    using h by (intro matches_digits) (simp_all add: ascii_uppercase_def)
  have mm: "matches_format ''MM'' (zfill 2 m)"
    using m by (intro matches_digits) (simp_all add: ascii_uppercase_def)
  have msec: "matches_format ''SS'' (zfill 2 s)"
    using s by (intro matches_digits) (simp_all add: ascii_uppercase_def)
  have colon: "matches_format '':'' '':''"
    by (rule matches_literal) (simp add: ascii_uppercase_def)
  have "matches_format (''HH'' @ '':'' @ ''MM'' @ '':'' @ ''SS'')
          (zfill 2 h @ '':'' @ zfill 2 m @ '':'' @ zfill 2 s)"
    by (intro matches_append mh mm msec colon)
  then show "matches_format ''HH:MM:SS'' (time_isoformat (Time h m s))" by simp
  show "length (time_isoformat (Time h m s)) = 8" using h m s by simp
  show "field (time_isoformat (Time h m s)) 0 2 = h" using h by (simp add: field_def)
  show "field (time_isoformat (Time h m s)) 3 2 = m" using h m by (simp add: field_def)
  show "field (time_isoformat (Time h m s)) 6 2 = s" using h m s by (simp add: field_def)
qed

lemma datetime_text:
  assumes "y < 10000" "mo < 100" "d < 100" "h < 100" "mi < 100" "s < 100"
  shows "matches_format ''YYYY-MM-DD HH:MM:SS'' (datetime_isoformat CHR '' '' (DateTime y mo d h mi s us))"
    and "field (datetime_isoformat CHR '' '' (DateTime y mo d h mi s us)) 0 4 = y"
    and "field (datetime_isoformat CHR '' '' (DateTime y mo d h mi s us)) 5 2 = mo"
    and "field (datetime_isoformat CHR '' '' (DateTime y mo d h mi s us)) 8 2 = d"
    and "field (datetime_isoformat CHR '' '' (DateTime y mo d h mi s us)) 11 2 = h"
    and "field (datetime_isoformat CHR '' '' (DateTime y mo d h mi s us)) 14 2 = mi"
    and "field (datetime_isoformat CHR '' '' (DateTime y mo d h mi s us)) 17 2 = s"
proof -
  let ?D = "date_isoformat (Date y mo d)"
  let ?T = "time_isoformat (Time h mi s)"
  note dt = date_text [OF assms(1,2,3)]
  note tt = time_text [OF assms(4,5,6)]
  have e: "datetime_isoformat CHR '' '' (DateTime y mo d h mi s us) = (?D @ '' '') @ ?T"
    by simp
  have sp: "matches_format '' '' '' ''"
    by (rule matches_literal) (simp add: ascii_uppercase_def)
  have "matches_format (''YYYY-MM-DD'' @ '' '' @ ''HH:MM:SS'') (?D @ '' '' @ ?T)"
    by (intro matches_append dt(1) tt(1) sp)
  then show "matches_format ''YYYY-MM-DD HH:MM:SS'' (datetime_isoformat CHR '' '' (DateTime y mo d h mi s us))"
    by simp
  have l: "length (?D @ '' '') = 11" using dt(2) by simp
  have left: "field ((?D @ '' '') @ ?T) pos len = field ?D pos len" if "pos + len \<le> 10" for pos len
    using that dt(2) field_left [of pos len "?D @ '' ''" ?T] field_left [of pos len ?D "'' ''"]
    by (simp del: date_isoformat.simps time_isoformat.simps)
  show "field (datetime_isoformat CHR '' '' (DateTime y mo d h mi s us)) 0 4 = y"
    unfolding e using left [of 0 4] dt(3) by simp
  show "field (datetime_isoformat CHR '' '' (DateTime y mo d h mi s us)) 5 2 = mo"
    unfolding e using left [of 5 2] dt(4) by simp
  show "field (datetime_isoformat CHR '' '' (DateTime y mo d h mi s us)) 8 2 = d"
    unfolding e using left [of 8 2] dt(5) by simp
  show "field (datetime_isoformat CHR '' '' (DateTime y mo d h mi s us)) 11 2 = h"
    unfolding e using field_right [OF l, of ?T 0 2] tt(3) by simp
  show "field (datetime_isoformat CHR '' '' (DateTime y mo d h mi s us)) 14 2 = mi"
    unfolding e using field_right [OF l, of ?T 3 2] tt(4) by simp
  show "field (datetime_isoformat CHR '' '' (DateTime y mo d h mi s us)) 17 2 = s"
    unfolding e using field_right [OF l, of ?T 6 2] tt(5) by simp
qed

lemma str_int_text:
  "str_int i = (if i < 0 then ''-'' else []) @ str_nat (nat \<bar>i\<bar>)"
  "set (str_nat (nat \<bar>i\<bar>)) \<subseteq> set digits"
  "nat_of_digits (str_nat (nat \<bar>i\<bar>)) = nat \<bar>i\<bar>"
  by (simp_all add: str_int_def str_nat_digits nat_of_digits_str_nat)

lemma dec_str_chars: "set (dec_str d) \<subseteq> set (digits @ ''.E+-'')"
proof -
  let ?S = "set (digits @ ''.E+-'')"
  define ds where "ds = str_nat (coeff d)"
  define leftdigits where "leftdigits = expo d + int (length ds)"
  define dotplace where "dotplace = (if expo d \<le> 0 \<and> leftdigits > - 6 then leftdigits else 1)"
  define intpart where "intpart = (if dotplace \<le> 0 then ''0''
                     else if dotplace \<ge> int (length ds)
                     then ds @ replicate (nat (dotplace - int (length ds))) CHR ''0''
                     else take (nat dotplace) ds)"
  define fracpart where "fracpart = (if dotplace \<le> 0 then ''.'' @ replicate (nat (- dotplace)) CHR ''0'' @ ds
                      else if dotplace \<ge> int (length ds) then []
                      else ''.'' @ drop (nat dotplace) ds)"
  define ex where "ex = (if leftdigits = dotplace then []
                else ''E'' @ (if leftdigits - dotplace < 0 then ''-'' else ''+'')
                     @ str_nat (nat \<bar>leftdigits - dotplace\<bar>))"
  have e: "dec_str d = intpart @ fracpart @ ex"
    by (simp add: dec_str_def Let_def ds_def leftdigits_def dotplace_def intpart_def fracpart_def ex_def)
  have dg: "set digits \<subseteq> ?S" by auto
  have z: "CHR ''0'' \<in> ?S" by (simp add: digits_def)
  then have zs: "set (replicate k CHR ''0'') \<subseteq> ?S" for k by auto
  have n: "set (str_nat k) \<subseteq> ?S" for k using str_nat_digits [of k] dg by blast
  then have d1: "set ds \<subseteq> ?S" by (simp add: ds_def)
  have t: "set (take k ds) \<subseteq> ?S" for k using set_take_subset [of k ds] d1 by blast
  have dr: "set (drop k ds) \<subseteq> ?S" for k using set_drop_subset [of k ds] d1 by blast
  have dot: "CHR ''.'' \<in> ?S" "CHR ''E'' \<in> ?S" "CHR ''+'' \<in> ?S" "CHR ''-'' \<in> ?S" by simp_all
  have i: "set intpart \<subseteq> ?S"
    unfolding intpart_def using z zs d1 t by auto
  have f: "set fracpart \<subseteq> ?S"
    unfolding fracpart_def using dot zs d1 dr by auto
  have x: "set ex \<subseteq> ?S"
    unfolding ex_def using dot n by auto
  show ?thesis unfolding e using i f x by auto
qed

text \<open>
  Claim C8. The formatter of SQL literals gives \<open>NULL\<close> for an absent value; \<open>TRUE\<close> or
  \<open>FALSE\<close> for a boolean; the bare decimal text for an integer (a minus sign if it is
  negative, then the digits of its magnitude), the bare text of \<open>str\<close> for a float and for
  a fixed-point decimal (digits, a point, an exponent; never a quote). A date-time
  (whatever its microseconds, which are not printed), a date and a time are put between
  single quotes, in the shapes \<open>YYYY-MM-DD HH:MM:SS\<close>,
  \<open>YYYY-MM-DD\<close> and \<open>HH:MM:SS\<close>, the digits spelling the fields of the value. Any other
  value is put between single quotes with each single quote of its text doubled.
\<close>

theorem to_sql_literal_rules:
  fixes float_str :: "'f \<Rightarrow> string"
  shows
   "to_sql_literal float_str VNone = ''NULL''
    \<and> to_sql_literal float_str (VBool True) = ''TRUE''
    \<and> to_sql_literal float_str (VBool False) = ''FALSE''
    \<and> to_sql_literal float_str (VInt i) = (if i < 0 then ''-'' else []) @ str_nat (nat \<bar>i\<bar>)
    \<and> set (str_nat (nat \<bar>i\<bar>)) \<subseteq> set digits
    \<and> nat_of_digits (str_nat (nat \<bar>i\<bar>)) = nat \<bar>i\<bar>
    \<and> to_sql_literal float_str (VFloat x) = float_str x
    \<and> to_sql_literal float_str (VDecimal d) = dec_str d
    \<and> set (dec_str d) \<subseteq> set (digits @ ''.E+-'')
    \<and> (y < 10000 \<and> mo < 100 \<and> dd < 100 \<and> h < 100 \<and> mi < 100 \<and> s < 100 \<longrightarrow>
         (\<exists>t. to_sql_literal float_str (VDateTime (DateTime y mo dd h mi s us)) = [quote_chr] @ t @ [quote_chr]
            \<and> matches_format ''YYYY-MM-DD HH:MM:SS'' t
            \<and> field t 0 4 = y \<and> field t 5 2 = mo \<and> field t 8 2 = dd
            \<and> field t 11 2 = h \<and> field t 14 2 = mi \<and> field t 17 2 = s))
    \<and> (y < 10000 \<and> mo < 100 \<and> dd < 100 \<longrightarrow>
         (\<exists>t. to_sql_literal float_str (VDate (Date y mo dd)) = [quote_chr] @ t @ [quote_chr]
            \<and> matches_format ''YYYY-MM-DD'' t
            \<and> field t 0 4 = y \<and> field t 5 2 = mo \<and> field t 8 2 = dd))
    \<and> (h < 100 \<and> mi < 100 \<and> s < 100 \<longrightarrow>
         (\<exists>t. to_sql_literal float_str (VTime (Time h mi s)) = [quote_chr] @ t @ [quote_chr]
            \<and> matches_format ''HH:MM:SS'' t
            \<and> field t 0 2 = h \<and> field t 3 2 = mi \<and> field t 6 2 = s))
    \<and> to_sql_literal float_str (VStr txt) = [quote_chr] @ sql_escape txt @ [quote_chr]"
proof -
  have i1: "to_sql_literal float_str (VInt i) = (if i < 0 then ''-'' else []) @ str_nat (nat \<bar>i\<bar>)"
    using str_int_text(1) [of i] by simp
  have dtm: "\<exists>t. to_sql_literal float_str (VDateTime (DateTime y mo dd h mi s us)) = [quote_chr] @ t @ [quote_chr]
            \<and> matches_format ''YYYY-MM-DD HH:MM:SS'' t
            \<and> field t 0 4 = y \<and> field t 5 2 = mo \<and> field t 8 2 = dd
            \<and> field t 11 2 = h \<and> field t 14 2 = mi \<and> field t 17 2 = s"
    if a: "y < 10000" "mo < 100" "dd < 100" "h < 100" "mi < 100" "s < 100"
  proof -
    have "to_sql_literal float_str (VDateTime (DateTime y mo dd h mi s us))
            = [quote_chr] @ datetime_isoformat CHR '' '' (DateTime y mo dd h mi s us) @ [quote_chr]"
      by simp
    then show ?thesis using datetime_text [OF a] by blast
  qed
  have dat: "\<exists>t. to_sql_literal float_str (VDate (Date y mo dd)) = [quote_chr] @ t @ [quote_chr]
            \<and> matches_format ''YYYY-MM-DD'' t
            \<and> field t 0 4 = y \<and> field t 5 2 = mo \<and> field t 8 2 = dd"
    if a: "y < 10000" "mo < 100" "dd < 100"
  proof -
    have "to_sql_literal float_str (VDate (Date y mo dd)) = [quote_chr] @ date_isoformat (Date y mo dd) @ [quote_chr]"
      by simp
    then show ?thesis using date_text [OF a] by blast
  qed
  have tim: "\<exists>t. to_sql_literal float_str (VTime (Time h mi s)) = [quote_chr] @ t @ [quote_chr]
            \<and> matches_format ''HH:MM:SS'' t
            \<and> field t 0 2 = h \<and> field t 3 2 = mi \<and> field t 6 2 = s"
    if a: "h < 100" "mi < 100" "s < 100"
  proof -
    have "to_sql_literal float_str (VTime (Time h mi s)) = [quote_chr] @ time_isoformat (Time h mi s) @ [quote_chr]"
      by simp
    then show ?thesis using time_text [OF a] by blast
  qed
  have st: "to_sql_literal float_str (VStr txt) = [quote_chr] @ sql_escape txt @ [quote_chr]"
    by (simp add: replace_quote)
  have basic: "to_sql_literal float_str VNone = ''NULL''"
    "to_sql_literal float_str (VBool True) = ''TRUE''"
    "to_sql_literal float_str (VBool False) = ''FALSE''"
    "to_sql_literal float_str (VFloat x) = float_str x"
    "to_sql_literal float_str (VDecimal d) = dec_str d"
    by simp_all
  show ?thesis
    using basic i1 str_int_text(2,3) [of i] dec_str_chars [of d] dtm dat tim st by blast
qed

text \<open>Leap day 2024 at 07:05:09, and a name with a quote.\<close>

theorem to_sql_literal_rules_witness:
  "(2024::nat) < 10000 \<and> (2::nat) < 100 \<and> (29::nat) < 100 \<and> (7::nat) < 100 \<and> (5::nat) < 100 \<and> (9::nat) < 100
   \<and> to_sql_literal str_nat (VDateTime (DateTime 2024 2 29 7 5 9 123456))
        = [quote_chr] @ ''2024-02-29 07:05:09'' @ [quote_chr]
   \<and> (\<exists>t. to_sql_literal str_nat (VDateTime (DateTime 2024 2 29 7 5 9 123456)) = [quote_chr] @ t @ [quote_chr]
          \<and> matches_format ''YYYY-MM-DD HH:MM:SS'' t
          \<and> field t 0 4 = 2024 \<and> field t 5 2 = 2 \<and> field t 8 2 = 29
          \<and> field t 11 2 = 7 \<and> field t 14 2 = 5 \<and> field t 17 2 = 9)
   \<and> to_sql_literal str_nat (VDate (Date 2024 2 29)) = [quote_chr] @ ''2024-02-29'' @ [quote_chr]
   \<and> (\<exists>t. to_sql_literal str_nat (VDate (Date 2024 2 29)) = [quote_chr] @ t @ [quote_chr]
          \<and> matches_format ''YYYY-MM-DD'' t \<and> field t 0 4 = 2024 \<and> field t 5 2 = 2 \<and> field t 8 2 = 29)
   \<and> to_sql_literal str_nat (VTime (Time 7 5 9)) = [quote_chr] @ ''07:05:09'' @ [quote_chr]
   \<and> (\<exists>t. to_sql_literal str_nat (VTime (Time 7 5 9)) = [quote_chr] @ t @ [quote_chr]
          \<and> matches_format ''HH:MM:SS'' t \<and> field t 0 2 = 7 \<and> field t 3 2 = 5 \<and> field t 6 2 = 9)
   \<and> to_sql_literal str_nat (VStr (''O'' @ [quote_chr] @ ''Brien''))
        = [quote_chr] @ ''O'' @ [quote_chr, quote_chr] @ ''Brien'' @ [quote_chr]
   \<and> to_sql_literal str_nat (VInt (- 42)) = ''-42''
   \<and> to_sql_literal str_nat (VDecimal \<lparr>coeff = 125, expo = - 1\<rparr>) = ''12.5''"
proof -
  note t = to_sql_literal_rules [of str_nat "- 42" _ "\<lparr>coeff = 125, expo = - 1\<rparr>" 2024 2 29 7 5 9 123456
      "''O'' @ [quote_chr] @ ''Brien''"]
  have b: "(2024::nat) < 10000 \<and> (2::nat) < 100 \<and> (29::nat) < 100 \<and> (7::nat) < 100 \<and> (5::nat) < 100 \<and> (9::nat) < 100"
    by simp
  have e1: "to_sql_literal str_nat (VDateTime (DateTime 2024 2 29 7 5 9 123456))
        = [quote_chr] @ ''2024-02-29 07:05:09'' @ [quote_chr]"
    by (simp add: zfill_def str_nat.simps digit_char_def digits_def)
  have e2: "to_sql_literal str_nat (VDate (Date 2024 2 29)) = [quote_chr] @ ''2024-02-29'' @ [quote_chr]"
    by (simp add: zfill_def str_nat.simps digit_char_def digits_def)
  have e3: "to_sql_literal str_nat (VTime (Time 7 5 9)) = [quote_chr] @ ''07:05:09'' @ [quote_chr]"
    by (simp add: zfill_def str_nat.simps digit_char_def digits_def)
  have e4: "to_sql_literal str_nat (VStr (''O'' @ [quote_chr] @ ''Brien''))
        = [quote_chr] @ ''O'' @ [quote_chr, quote_chr] @ ''Brien'' @ [quote_chr]"
    using t by (simp add: sql_escape_def quote_chr_def)
  have e5: "to_sql_literal str_nat (VInt (- 42)) = ''-42''"
    using t by (simp add: str_nat.simps digit_char_def digits_def)
  have e6: "to_sql_literal str_nat (VDecimal \<lparr>coeff = 125, expo = - 1\<rparr>) = ''12.5''"
    by (simp add: dec_str_def str_nat.simps digit_char_def digits_def)
  show ?thesis
    using t b e1 e2 e3 e4 e5 e6 by blast
qed

section \<open>Fixed-point decimals\<close>

text \<open>
  The arithmetic of the decimal context on the operands the generator builds: with a
  precision of at most 28 digits no operation rounds, and the quotient of the fractional
  part by the power of ten comes out with its trailing zeros removed.
\<close>

lemma str_nat_length_ge: "10 ^ k \<le> n \<Longrightarrow> Suc k \<le> length (str_nat n)"
proof (induction n arbitrary: k rule: str_nat.induct)
  case (1 n)
  show ?case
  proof (cases "n < 10")
    case True
    have "k = 0"
    proof (rule ccontr)
      assume "k \<noteq> 0"
      then obtain j where "k = Suc j" by (cases k) auto
      then have "(10::nat) \<le> 10 ^ k" by simp
      then show False using "1.prems" True by simp
    qed
    then show ?thesis using True by (subst str_nat.simps) simp
  next
    case False
    show ?thesis
    proof (cases k)
      case 0
      then show ?thesis using False by (subst str_nat.simps) simp
    next
      case (Suc j)
      then have "10 ^ j \<le> n div 10" using "1.prems" by (simp add: less_eq_div_iff_mult_less_eq)
      then have "Suc j \<le> length (str_nat (n div 10))" using "1.IH" [OF False] by simp
      then show ?thesis using False Suc by (subst str_nat.simps) simp
    qed
  qed
qed

lemma ndigits_le: "n < 10 ^ w \<Longrightarrow> 0 < w \<Longrightarrow> ndigits n \<le> w"
  by (simp add: ndigits_def str_nat_length)

lemma ndigits_pow10: "ndigits (10 ^ k) = Suc k"
proof -
  have "Suc k \<le> ndigits (10 ^ k)" by (simp add: ndigits_def str_nat_length_ge)
  moreover have "ndigits (10 ^ k) \<le> Suc k" by (rule ndigits_le) simp_all
  ultimately show ?thesis by simp
qed

lemma dec_fix_id:
  assumes "coeff d < 10 ^ 28" "Etiny \<le> expo d" "expo d \<le> 0"
  shows "dec_fix d = Inr d"
proof (cases "coeff d = 0")
  case True
  have "min (max (expo d) Etiny) Emax = expo d" using assms(2,3) by (simp add: Emax_def)
  then show ?thesis using True by (simp add: dec_fix_def)
next
  case False
  have "ndigits (coeff d) \<le> 28" using assms(1) by (rule ndigits_le) simp
  then have l: "int (ndigits (coeff d)) + expo d - prec \<le> expo d" by (simp add: prec_def)
  then have "int (ndigits (coeff d)) + expo d - prec \<le> Etop" using assms(3) by (simp add: Etop_def Emax_def prec_def)
  moreover have "\<not> expo d < max (int (ndigits (coeff d)) + expo d - prec) Etiny" using l assms(2) by simp
  ultimately show ?thesis using False by (simp add: dec_fix_def Let_def)
qed

lemma dec_pow10_exact:
  assumes "1 \<le> S" "S \<le> 27"
  shows "dec_pow10 S = Inr \<lparr>coeff = 10 ^ nat S, expo = 0\<rparr>"
proof -
  have "nat S < 28" using assms by simp
  then have p: "(10::nat) ^ nat S < 10 ^ 28" by (rule power_strict_increasing) simp
  have "dec_fix \<lparr>coeff = 10 ^ nat S, expo = 0\<rparr> = Inr \<lparr>coeff = 10 ^ nat S, expo = 0\<rparr>"
  proof (rule dec_fix_id)
    show "coeff \<lparr>coeff = 10 ^ nat S, expo = 0\<rparr> < 10 ^ 28" using p by (simp del: power_numeral)
    show "Etiny \<le> expo \<lparr>coeff = 10 ^ nat S, expo = 0\<rparr>" by (simp add: Etiny_def Emin_def prec_def)
    show "expo \<lparr>coeff = 10 ^ nat S, expo = 0\<rparr> \<le> 0" by simp
  qed
  then show ?thesis using assms by (simp add: dec_pow10_def prec_def Let_def)
qed

lemma strip_zeros_spec:
  "strip_zeros c e ideal = (c', e') \<Longrightarrow> e \<le> ideal
   \<Longrightarrow> e \<le> e' \<and> e' \<le> ideal \<and> c' * 10 ^ nat (e' - e) = c \<and> (e' = ideal \<or> c' mod 10 \<noteq> 0)"
proof (induction c e ideal rule: strip_zeros.induct)
  case (1 c e ideal)
  show ?case
  proof (cases "e < ideal \<and> c mod 10 = 0")
    case True
    then have r: "strip_zeros (c div 10) (e + 1) ideal = (c', e')"
      using "1.prems"(1) by (subst (asm) strip_zeros.simps) simp
    have le: "e + 1 \<le> ideal" using True by simp
    from "1.IH" [OF True r le] have
      ih: "e + 1 \<le> e'" "e' \<le> ideal" "c' * 10 ^ nat (e' - (e + 1)) = c div 10" "e' = ideal \<or> c' mod 10 \<noteq> 0"
      by simp_all
    have "nat (e' - e) = Suc (nat (e' - (e + 1)))" using ih(1) by simp
    then have "c' * 10 ^ nat (e' - e) = 10 * (c div 10)" using ih(3) by simp
    also have "\<dots> = c" using True by presburger
    finally show ?thesis using ih by simp
  next
    case False
    then have "c' = c" "e' = e" using "1.prems"(1) by (subst (asm) strip_zeros.simps, auto)+
    then show ?thesis using False "1.prems"(2) by auto
  qed
qed

lemma pow10_cancel: "a * 10 ^ m = b * (10::nat) ^ m \<Longrightarrow> a = b"
  by simp

lemma dec_div_pow10:
  assumes s: "1 \<le> s" "s \<le> 27" and F: "0 < F" "F < 10 ^ s"
  shows "\<exists>q k. dec_div \<lparr>coeff = F, expo = 0\<rparr> \<lparr>coeff = 10 ^ s, expo = 0\<rparr> = Inr \<lparr>coeff = q, expo = - int k\<rparr>
           \<and> 1 \<le> k \<and> k \<le> s \<and> q * 10 ^ (s - k) = F \<and> q mod 10 \<noteq> 0"
proof -
  define nd where "nd = ndigits F"
  have nd: "nd \<le> s" unfolding nd_def using F(2) s(1) by (intro ndigits_le) simp_all
  define sh where "sh = s + 30 - nd"
  have sh: "s \<le> sh" "int sh = int (Suc s) - int nd + 28 + 1" using nd s unfolding sh_def by simp_all
  have split: "(10::nat) ^ sh = 10 ^ s * 10 ^ (sh - s)" using sh(1) by (simp flip: power_add)
  have q: "(F * 10 ^ sh) div 10 ^ s = F * 10 ^ (sh - s)" by (simp add: split)
  have r: "(F * 10 ^ sh) mod 10 ^ s = 0" by (simp add: split)
  obtain c' e' where sz: "strip_zeros (F * 10 ^ (sh - s)) (- int sh) 0 = (c', e')"
    by (cases "strip_zeros (F * 10 ^ (sh - s)) (- int sh) 0")
  from strip_zeros_spec [OF sz] have
    sp: "- int sh \<le> e'" "e' \<le> 0" "c' * 10 ^ nat (e' - - int sh) = F * 10 ^ (sh - s)"
        "e' = 0 \<or> c' mod 10 \<noteq> 0"
    by simp_all
  define j where "j = nat (e' + int sh)"
  have j: "j \<le> sh" "e' = int j - int sh" using sp(1,2) by (simp_all add: j_def)
  have cj: "c' * 10 ^ j = F * 10 ^ (sh - s)" using sp(3) by (simp add: j_def)
  have jlt: "j < sh"
  proof (rule ccontr)
    assume "\<not> j < sh"
    then have "j = sh" using j(1) by simp
    then have "(c' * 10 ^ s) * 10 ^ (sh - s) = F * 10 ^ (sh - s)" using cj split by simp
    then have "c' * 10 ^ s = F" by (rule pow10_cancel)
    then show False using F by (cases "c' = 0") auto
  qed
  then have m10: "c' mod 10 \<noteq> 0" using sp(4) j(2) by auto
  have jge: "sh - s \<le> j"
  proof (rule ccontr)
    assume "\<not> sh - s \<le> j"
    then obtain d where d: "sh - s = j + Suc d" using less_iff_Suc_add [of j "sh - s"] by auto
    have "c' * 10 ^ j = (F * 10 ^ Suc d) * 10 ^ j" using cj d by (simp add: power_add)
    then have "c' = F * 10 ^ Suc d" by (rule pow10_cancel)
    then show False using m10 by simp
  qed
  define k where "k = sh - j"
  have k: "1 \<le> k" "k \<le> s" "e' = - int k" using jlt jge j sh(1) by (simp_all add: k_def)
  have "j = (s - k) + (sh - s)" using jge jlt sh(1) by (simp add: k_def)
  then have "(c' * 10 ^ (s - k)) * 10 ^ (sh - s) = F * 10 ^ (sh - s)" using cj by (simp add: power_add)
  then have ck: "c' * 10 ^ (s - k) = F" by (rule pow10_cancel)
  have "c' \<le> F" using ck by (metis One_nat_def Suc_leI mult.right_neutral mult_le_mono2 zero_less_numeral zero_less_power)
  moreover have "(10::nat) ^ s < 10 ^ 28" by (rule power_strict_increasing) (use s in simp_all)
  ultimately have c28: "c' < 10 ^ 28" using F(2) by linarith
  have fx: "dec_fix \<lparr>coeff = c', expo = e'\<rparr> = Inr \<lparr>coeff = c', expo = e'\<rparr>"
  proof (rule dec_fix_id)
    show "coeff \<lparr>coeff = c', expo = e'\<rparr> < 10 ^ 28" using c28 by (simp del: power_numeral)
    show "Etiny \<le> expo \<lparr>coeff = c', expo = e'\<rparr>" using k s by (simp add: Etiny_def Emin_def prec_def)
    show "expo \<lparr>coeff = c', expo = e'\<rparr> \<le> 0" using k by simp
  qed
  have shift: "int (ndigits (10 ^ s)) - int (ndigits F) + prec + 1 = int sh"
    using sh(2) by (simp add: ndigits_pow10 nd_def prec_def)
  have "dec_div \<lparr>coeff = F, expo = 0\<rparr> \<lparr>coeff = 10 ^ s, expo = 0\<rparr> = Inr \<lparr>coeff = c', expo = e'\<rparr>"
    using F(1) by (simp add: dec_div_def Let_def shift q r sz fx del: power_numeral)
  then show ?thesis using k ck m10 by blast
qed

text \<open>The positional text of a decimal: its digits on either side of the point.\<close>

lemma no_point_in_digits: "set t \<subseteq> set digits \<Longrightarrow> x \<in> set t \<Longrightarrow> x \<noteq> CHR ''.''"
  by (auto simp: digits_def)

lemma digits_before_point:
  assumes "set a \<subseteq> set digits"
  shows "whole_digits (a @ ''.'' @ b) = length a" "whole_digits a = length a"
  using no_point_in_digits [OF assms]
  by (simp_all add: whole_digits_def takeWhile_append2 takeWhile_eq_all_conv [THEN iffD2])

lemma digits_after_point:
  assumes "set a \<subseteq> set digits"
  shows "frac_digits (a @ ''.'' @ b) = length b" "frac_digits a = 0"
  using no_point_in_digits [OF assms]
  by (simp_all add: frac_digits_def dropWhile_append2 dropWhile_eq_Nil_conv [THEN iffD2])

lemma dec_str_plain:
  assumes e: "expo d = - int k" and p: "- 6 < int (ndigits (coeff d)) - int k"
  shows "frac_digits (dec_str d) = k"
    and "whole_digits (dec_str d) = (if k < ndigits (coeff d) then ndigits (coeff d) - k else 1)"
proof -
  define ds where "ds = str_nat (coeff d)"
  have len: "length ds = ndigits (coeff d)" by (simp add: ds_def ndigits_def)
  have dg: "set ds \<subseteq> set digits" by (simp add: ds_def str_nat_digits)
  have ne: "ds \<noteq> []" by (simp add: ds_def str_nat_nonempty)
  have z: "set ''0'' \<subseteq> set digits" by (simp add: digits_def)
  have shape: "dec_str d =
      (if k = 0 then ds
       else if k < length ds then take (length ds - k) ds @ ''.'' @ drop (length ds - k) ds
       else ''0'' @ ''.'' @ (replicate (k - length ds) CHR ''0'' @ ds))"
  proof (cases "k = 0")
    case True
    then show ?thesis using e ne by (simp add: dec_str_def Let_def flip: ds_def)
  next
    case False
    show ?thesis
    proof (cases "k < length ds")
      case True
      have "nat (int (length ds) - int k) = length ds - k" by simp
      then show ?thesis using e p False True len
        by (simp add: dec_str_def Let_def flip: ds_def)
    next
      case g: False
      have "nat (int k - int (length ds)) = k - length ds" by simp
      then show ?thesis using e p False g len
        by (simp add: dec_str_def Let_def flip: ds_def)
    qed
  qed
  have t: "set (take n ds) \<subseteq> set digits" for n using set_take_subset [of n ds] dg by blast
  show "frac_digits (dec_str d) = k"
  proof (cases "k = 0")
    case True
    then show ?thesis using shape digits_after_point(2) [OF dg] by simp
  next
    case False
    show ?thesis
    proof (cases "k < length ds")
      case True
      then show ?thesis
        using shape False digits_after_point(1) [OF t, of "length ds - k" "drop (length ds - k) ds"]
        by simp
    next
      case g: False
      then show ?thesis
        using shape False digits_after_point(1) [OF z, of "replicate (k - length ds) CHR ''0'' @ ds"]
        by simp
    qed
  qed
  show "whole_digits (dec_str d) = (if k < ndigits (coeff d) then ndigits (coeff d) - k else 1)"
  proof (cases "k = 0")
    case True
    then show ?thesis using shape digits_before_point(2) [OF dg] len ne by (cases ds) simp_all
  next
    case False
    show ?thesis
    proof (cases "k < length ds")
      case True
      then show ?thesis
        using shape False len digits_before_point(1) [OF t, of "length ds - k" "drop (length ds - k) ds"]
        by simp
    next
      case g: False
      then show ?thesis
        using shape False len digits_before_point(1) [OF z, of "replicate (k - length ds) CHR ''0'' @ ds"]
        by simp
    qed
  qed
qed

text \<open>The value the generator builds from the two draws.\<close>

lemma dec_add_exact:
  assumes k: "k \<le> 28" and W: "W * 10 ^ k + q < 10 ^ 28"
  shows "dec_add \<lparr>coeff = W, expo = 0\<rparr> \<lparr>coeff = q, expo = - int k\<rparr>
         = Inr \<lparr>coeff = W * 10 ^ k + q, expo = - int k\<rparr>"
proof -
  have "dec_add \<lparr>coeff = W, expo = 0\<rparr> \<lparr>coeff = q, expo = - int k\<rparr>
        = dec_fix \<lparr>coeff = W * 10 ^ k + q, expo = - int k\<rparr>"
    by (simp add: dec_add_def Let_def min_def)
  also have "\<dots> = Inr \<lparr>coeff = W * 10 ^ k + q, expo = - int k\<rparr>"
  proof (rule dec_fix_id)
    show "coeff \<lparr>coeff = W * 10 ^ k + q, expo = - int k\<rparr> < 10 ^ 28" using W by simp
    show "Etiny \<le> expo \<lparr>coeff = W * 10 ^ k + q, expo = - int k\<rparr>"
      using k by (simp add: Etiny_def Emin_def Emax_def prec_def)
    show "expo \<lparr>coeff = W * 10 ^ k + q, expo = - int k\<rparr> \<le> 0" by simp
  qed
  finally show ?thesis .
qed

lemma randint_pow10:
  "0 \<le> fst (randint 0 (10 ^ n - 1) g) \<and> fst (randint 0 (10 ^ n - 1) g) < 10 ^ n"
proof -
  have "(0::int) \<le> 10 ^ n - 1" by simp
  from randint_range [OF this, of g] show ?thesis by simp
qed

lemma decimal_random_value:
  assumes P: "1 \<le> P" "P \<le> 28" and S: "0 \<le> S" "S \<le> 27"
    and wg: "wg = (if 0 < P - S then randint 0 (10 ^ nat (P - S) - 1) g else (0, g))"
    and fg: "fg = (if 0 < S then randint 0 (10 ^ nat S - 1) (snd wg) else (0, snd wg))"
  shows "\<exists>v. decimal_random P S g = Inr (v, snd fg) \<and> - S \<le> expo v \<and> expo v \<le> 0
           \<and> int (coeff v) * 10 ^ nat (S + expo v) = fst wg * 10 ^ nat S + fst fg
           \<and> (expo v = 0 \<or> coeff v mod 10 \<noteq> 0)"
    and "0 \<le> fst wg" "fst wg < 10 ^ nat (P - S)" "0 \<le> fst fg" "fst fg < 10 ^ nat S"
proof -
  show w0: "0 \<le> fst wg" and w1: "fst wg < 10 ^ nat (P - S)"
    using randint_pow10 [of "nat (P - S)" g] by (simp_all add: wg)
  show f0: "0 \<le> fst fg" and f1: "fst fg < 10 ^ nat S"
    using randint_pow10 [of "nat S" "snd wg"] by (simp_all add: fg)
  define W where "W = nat (fst wg)"
  define F where "F = nat (fst fg)"
  define s where "s = nat S"
  define l where "l = nat (P - S)"
  have Wi: "fst wg = int W" and Fi: "fst fg = int F" using w0 f0 by (simp_all add: W_def F_def)
  have Wl: "W < 10 ^ l" using w1 Wi by (simp add: l_def flip: of_nat_less_iff)
  have Fs: "F < 10 ^ s" using f1 Fi by (simp add: s_def flip: of_nat_less_iff)
  have ls: "l + s \<le> 28 \<or> W = 0"
  proof (cases "0 < P - S")
    case True
    then have "nat (P - S) + nat S = nat P" using S by linarith
    moreover have "nat P \<le> 28" using P by linarith
    ultimately show ?thesis by (simp add: l_def s_def)
  next
    case False
    then show ?thesis using wg by (simp add: W_def)
  qed
  have run: "decimal_random P S g =
      (if 0 < S then
         (case dec_pow10 S of Inl e \<Rightarrow> Inl e
          | Inr ten_s \<Rightarrow>
             (case dec_div \<lparr>coeff = F, expo = 0\<rparr> ten_s of Inl e \<Rightarrow> Inl e
              | Inr q \<Rightarrow>
                 (case dec_add \<lparr>coeff = W, expo = 0\<rparr> q of Inl e \<Rightarrow> Inl e
                  | Inr v \<Rightarrow> Inr (v, snd fg))))
       else Inr (\<lparr>coeff = W, expo = 0\<rparr>, snd fg))"
    using P S
    by (simp add: decimal_random_def Let_def split_def dec_of_int_def wg fg W_def F_def max_def
        cong: sum.case_cong)
  show "\<exists>v. decimal_random P S g = Inr (v, snd fg) \<and> - S \<le> expo v \<and> expo v \<le> 0
           \<and> int (coeff v) * 10 ^ nat (S + expo v) = fst wg * 10 ^ nat S + fst fg
           \<and> (expo v = 0 \<or> coeff v mod 10 \<noteq> 0)"
  proof (cases "0 < S")
    case False
    then have S0: "S = 0" using S by simp
    have "fst fg = 0" using fg S0 by simp
    then show ?thesis using run S0 Wi by simp
  next
    case True
    then have s1: "1 \<le> S" by simp
    have ten: "dec_pow10 S = Inr \<lparr>coeff = 10 ^ s, expo = 0\<rparr>"
      using dec_pow10_exact [OF s1 S(2)] by (simp add: s_def)
    have sn: "1 \<le> s" "s \<le> 27" using s1 S by (simp_all add: s_def)
    show ?thesis
    proof (cases "F = 0")
      case F0: True
      have "dec_div \<lparr>coeff = F, expo = 0\<rparr> \<lparr>coeff = 10 ^ s, expo = 0\<rparr> = dec_fix \<lparr>coeff = 0, expo = 0\<rparr>"
        using F0 by (simp add: dec_div_def)
      also have "\<dots> = Inr \<lparr>coeff = 0, expo = 0\<rparr>"
        by (simp add: dec_fix_def Etiny_def Emin_def Emax_def prec_def)
      finally have dv: "dec_div \<lparr>coeff = F, expo = 0\<rparr> \<lparr>coeff = 10 ^ s, expo = 0\<rparr>
          = Inr \<lparr>coeff = 0, expo = - int 0\<rparr>" by simp
      have "W < 10 ^ 28"
      proof (cases "W = 0")
        case True then show ?thesis by simp
      next
        case False
        then have "l \<le> 28" using ls by simp
        then have "(10::nat) ^ l \<le> 10 ^ 28" by (rule power_increasing) simp
        then show ?thesis using Wl by linarith
      qed
      then have "W * 10 ^ 0 + 0 < 10 ^ 28" by simp
      from dec_add_exact [OF _ this]
      have ad: "dec_add \<lparr>coeff = W, expo = 0\<rparr> \<lparr>coeff = 0, expo = - int 0\<rparr>
          = Inr \<lparr>coeff = W, expo = 0\<rparr>" by simp
      have "decimal_random P S g = Inr (\<lparr>coeff = W, expo = 0\<rparr>, snd fg)"
        using run True ten dv ad by simp
      then show ?thesis using Wi Fi F0 S by simp
    next
      case Fp: False
      then have "0 < F" by simp
      from dec_div_pow10 [OF sn this Fs]
      obtain q k where dv: "dec_div \<lparr>coeff = F, expo = 0\<rparr> \<lparr>coeff = 10 ^ s, expo = 0\<rparr>
            = Inr \<lparr>coeff = q, expo = - int k\<rparr>"
        and k: "1 \<le> k" "k \<le> s" and qF: "q * 10 ^ (s - k) = F" and q10: "q mod 10 \<noteq> 0"
        by blast
      have qk: "q < 10 ^ k"
      proof (rule ccontr)
        assume "\<not> q < 10 ^ k"
        then have "10 ^ k \<le> q" by simp
        then have "10 ^ k * 10 ^ (s - k) \<le> q * 10 ^ (s - k)" by (rule mult_le_mono1)
        then have "(10::nat) ^ s \<le> F" using qF k by (simp flip: power_add)
        then show False using Fs by simp
      qed
      have bound: "W * 10 ^ k + q < 10 ^ 28"
      proof (cases "W = 0")
        case True
        have "k \<le> 28" using k sn by simp
        then have "(10::nat) ^ k \<le> 10 ^ 28" by (rule power_increasing) simp
        then show ?thesis using True qk by simp
      next
        case False
        then have "l + s \<le> 28" using ls by simp
        then have lk: "l + k \<le> 28" using k by simp
        have "W + 1 \<le> 10 ^ l" using Wl by simp
        then have "(W + 1) * 10 ^ k \<le> 10 ^ l * 10 ^ k" by (rule mult_le_mono1)
        then have "W * 10 ^ k + 10 ^ k \<le> 10 ^ (l + k)" by (simp add: power_add algebra_simps)
        moreover have "(10::nat) ^ (l + k) \<le> 10 ^ 28" using lk by (rule power_increasing) simp
        ultimately show ?thesis using qk by linarith
      qed
      have k28: "k \<le> 28" using k sn by simp
      have ad: "dec_add \<lparr>coeff = W, expo = 0\<rparr> \<lparr>coeff = q, expo = - int k\<rparr>
          = Inr \<lparr>coeff = W * 10 ^ k + q, expo = - int k\<rparr>"
        by (rule dec_add_exact [OF k28 bound])
      have res: "decimal_random P S g = Inr (\<lparr>coeff = W * 10 ^ k + q, expo = - int k\<rparr>, snd fg)"
        using run True ten dv ad by simp
      have e1: "nat (S + - int k) = s - k" using k by (simp add: s_def)
      have "(W * 10 ^ k + q) * 10 ^ (s - k) = W * (10 ^ k * 10 ^ (s - k)) + q * 10 ^ (s - k)"
        by (simp add: algebra_simps)
      also have "\<dots> = W * 10 ^ s + F" using qF k by (simp flip: power_add)
      finally have val: "(W * 10 ^ k + q) * 10 ^ (s - k) = W * 10 ^ s + F" .
      have "int ((W * 10 ^ k + q) * 10 ^ (s - k)) = int (W * 10 ^ s + F)" using val by simp
      then have vali: "int (W * 10 ^ k + q) * 10 ^ (s - k) = int W * 10 ^ s + int F" by simp
      have "10 dvd W * 10 ^ k" using k by (cases k) simp_all
      then have m: "(W * 10 ^ k + q) mod 10 = q mod 10" by (simp add: mod_add_left_eq [symmetric] mod_eq_0_iff_dvd [THEN iffD2])
      have kS: "int k \<le> S" using k by (simp add: s_def)
      show ?thesis
        using res e1 vali m q10 kS Wi Fi by (simp add: s_def del: power_numeral)
    qed
  qed
qed

lemma generate_random_numeric:
  "numeric_column c P S \<Longrightarrow>
   generate_random env c g =
     (case decimal_random P S g of Inl e \<Rightarrow> Inl e | Inr (d, g') \<Rightarrow> Inr (VDecimal d, g'))"
  by (simp add: generate_random_def numeric_column_def Let_def)

lemma ndigits_zero: "ndigits 0 = 1"
  by (simp add: ndigits_def str_nat.simps digit_char_def digits_def)

lemma canonical_digits:
  fixes C W F :: nat
  assumes k: "k \<le> s" and val: "C * 10 ^ (s - k) = W * 10 ^ s + F"
    and W: "W < 10 ^ l" and F: "F < 10 ^ s"
  shows "C < 10 ^ (l + k)" and "1 \<le> W \<Longrightarrow> 10 ^ k \<le> C"
    and "1 \<le> s \<Longrightarrow> k = 0 \<or> C mod 10 \<noteq> 0 \<Longrightarrow> k = s \<longleftrightarrow> F mod 10 \<noteq> 0"
proof -
  have sp: "(10::nat) ^ s = 10 ^ k * 10 ^ (s - k)" using k by (simp flip: power_add)
  have "W + 1 \<le> 10 ^ l" using W by simp
  then have "(W + 1) * 10 ^ s \<le> 10 ^ l * 10 ^ s" by (rule mult_le_mono1)
  then have "W * 10 ^ s + F < 10 ^ l * 10 ^ s" using F by (simp add: algebra_simps)
  then have "C * 10 ^ (s - k) < 10 ^ (l + k) * 10 ^ (s - k)"
    using val sp by (simp add: power_add mult.assoc)
  then show "C < 10 ^ (l + k)" by simp
  show "10 ^ k \<le> C" if "1 \<le> W"
  proof -
    have "1 * 10 ^ s \<le> W * 10 ^ s" using that by (rule mult_le_mono1)
    then have "(10::nat) ^ s \<le> W * 10 ^ s" by (simp only: mult_1)
    then have "10 ^ s \<le> W * 10 ^ s + F" by (rule trans_le_add1)
    then have "10 ^ k * 10 ^ (s - k) \<le> C * 10 ^ (s - k)" unfolding val sp [symmetric] .
    then show ?thesis by simp
  qed
  show "k = s \<longleftrightarrow> F mod 10 \<noteq> 0" if s1: "1 \<le> s" and can: "k = 0 \<or> C mod 10 \<noteq> 0"
  proof
    assume ks: "k = s"
    then have C: "C = W * 10 ^ s + F" using val by simp
    have "10 dvd W * 10 ^ s" using s1 by (cases s) simp_all
    then have "C mod 10 = F mod 10" unfolding C by (simp add: mod_add_left_eq [symmetric] mod_eq_0_iff_dvd [THEN iffD2])
    then show "F mod 10 \<noteq> 0" using can ks s1 by simp
  next
    assume f: "F mod 10 \<noteq> 0"
    show "k = s"
    proof (rule ccontr)
      assume "k \<noteq> s"
      then have "Suc 0 \<le> s - k" using k by simp
      then have a: "10 dvd C * 10 ^ (s - k)" by (cases "s - k") simp_all
      have b: "10 dvd W * 10 ^ s" using s1 by (cases s) simp_all
      have "10 dvd F" using a b unfolding val by (simp add: dvd_add_right_iff)
      then show False using f by (simp add: mod_eq_0_iff_dvd)
    qed
  qed
qed

text \<open>
  Claim C2, as the program has it. For a column decided by the rule for \<open>numeric\<close> and
  \<open>decimal\<close>, with precision \<open>1 \<le> P \<le> 28\<close> and scale \<open>0 \<le> S \<le> 27\<close>, the generator
  returns a decimal \<open>v\<close>. Its whole part is an integer of \<open>[0, 10^(P-S) - 1]\<close> chosen by the
  next draw (0, with no draw, when \<open>P - S \<le> 0\<close>), its fractional part an integer of
  \<open>[0, 10^S - 1]\<close> chosen by the draw after it (0, with no draw, when \<open>S = 0\<close>), and \<open>v\<close>
  is exactly \<open>whole + frac / 10^S\<close>, written with the trailing zeros of the fractional part
  removed: the exponent of \<open>v\<close> lies in \<open>[-S, 0]\<close>, and it is \<open>-S\<close> precisely when \<open>S = 0\<close> or
  the last digit of the fractional part is not zero. When \<open>S \<le> 6\<close> or the whole part is not
  zero, the text of \<open>v\<close> is positional, with as many digits after the point as the exponent
  says, so at most \<open>S\<close> of them, and exactly \<open>S\<close> only when \<open>S = 0\<close> or the fractional part does
  not end in zero; before the point it has at most \<open>max(1, P - S)\<close> digits.
\<close>

theorem numeric_value_digits:
  fixes env :: "'f env"
  assumes col: "numeric_column c P S" and P: "1 \<le> P" "P \<le> 28" and S: "0 \<le> S" "S \<le> 27"
    and wg: "wg = (if 0 < P - S then randint 0 (10 ^ nat (P - S) - 1) g else (0, g))"
    and fg: "fg = (if 0 < S then randint 0 (10 ^ nat S - 1) (snd wg) else (0, snd wg))"
  shows "\<exists>v. generate_random env c g = Inr (VDecimal v, snd fg)
           \<and> 0 \<le> fst wg \<and> fst wg < 10 ^ nat (P - S) \<and> 0 \<le> fst fg \<and> fst fg < 10 ^ nat S
           \<and> - S \<le> expo v \<and> expo v \<le> 0
           \<and> int (coeff v) * 10 ^ nat (S + expo v) = fst wg * 10 ^ nat S + fst fg
           \<and> (expo v = 0 \<or> coeff v mod 10 \<noteq> 0)
           \<and> (expo v = - S \<longleftrightarrow> S = 0 \<or> fst fg mod 10 \<noteq> 0)
           \<and> (S \<le> 6 \<or> 1 \<le> fst wg \<longrightarrow>
                frac_digits (dec_str v) = nat (- expo v)
                \<and> frac_digits (dec_str v) \<le> nat S
                \<and> (frac_digits (dec_str v) = nat S \<longleftrightarrow> S = 0 \<or> fst fg mod 10 \<noteq> 0)
                \<and> whole_digits (dec_str v) \<le> max 1 (nat (P - S)))"
proof -
  note dr = decimal_random_value [OF P S wg fg]
  from dr(1) obtain v where run: "decimal_random P S g = Inr (v, snd fg)"
    and lo: "- S \<le> expo v" and hi: "expo v \<le> 0"
    and val: "int (coeff v) * 10 ^ nat (S + expo v) = fst wg * 10 ^ nat S + fst fg"
    and can: "expo v = 0 \<or> coeff v mod 10 \<noteq> 0"
    by blast
  have gen: "generate_random env c g = Inr (VDecimal v, snd fg)"
    using generate_random_numeric [OF col, of env g] run by simp
  define W where "W = nat (fst wg)"
  define F where "F = nat (fst fg)"
  define s where "s = nat S"
  define l where "l = nat (P - S)"
  define k where "k = nat (- expo v)"
  define C where "C = coeff v"
  have Wi: "fst wg = int W" and Fi: "fst fg = int F" using dr(2,4) by (simp_all add: W_def F_def)
  have Wl: "W < 10 ^ l" using dr(3) Wi by (simp add: l_def flip: of_nat_less_iff)
  have Fs: "F < 10 ^ s" using dr(5) Fi by (simp add: s_def flip: of_nat_less_iff)
  have ek: "expo v = - int k" using hi by (simp add: k_def)
  have ks: "k \<le> s" using lo by (simp add: k_def s_def)
  have "nat (S + expo v) = s - k" using lo hi S by (simp add: s_def k_def)
  then have "int (C * 10 ^ (s - k)) = int (W * 10 ^ s + F)"
    using val Wi Fi by (simp add: C_def s_def)
  then have valn: "C * 10 ^ (s - k) = W * 10 ^ s + F" by (simp only: of_nat_eq_iff)
  note cd = canonical_digits [OF ks valn Wl Fs]
  have can': "k = 0 \<or> C mod 10 \<noteq> 0" using can ek by (simp add: C_def)
  have Fm: "fst fg mod 10 \<noteq> 0 \<longleftrightarrow> F mod 10 \<noteq> 0"
  proof -
    have "int F mod 10 = int (F mod 10)" by (simp add: zmod_int)
    then show ?thesis using Fi by simp
  qed
  have full: "k = s \<longleftrightarrow> S = 0 \<or> fst fg mod 10 \<noteq> 0"
  proof (cases "S = 0")
    case True
    then show ?thesis using ks by (simp add: s_def)
  next
    case False
    then have "1 \<le> s" using S by (simp add: s_def)
    from cd(3) [OF this can'] show ?thesis using False Fm by simp
  qed
  have full': "expo v = - S \<longleftrightarrow> S = 0 \<or> fst fg mod 10 \<noteq> 0"
    using full ek S by (auto simp: s_def)
  have shape: "frac_digits (dec_str v) = k \<and> whole_digits (dec_str v) \<le> max 1 l"
    if plain: "S \<le> 6 \<or> 1 \<le> fst wg"
  proof -
    have nd1: "1 \<le> ndigits C"
      using str_nat_nonempty [of C] by (cases "str_nat C") (simp_all add: ndigits_def)
    have p: "- 6 < int (ndigits (coeff v)) - int k"
    proof (cases "1 \<le> fst wg")
      case True
      then have "1 \<le> W" using Wi by simp
      from cd(2) [OF this] have "Suc k \<le> ndigits C"
        unfolding ndigits_def by (rule str_nat_length_ge)
      then show ?thesis by (simp add: C_def)
    next
      case False
      then have "S \<le> 6" using plain by simp
      then have "k \<le> 6" using ks S by (simp add: s_def)
      then show ?thesis using nd1 by (simp add: C_def)
    qed
    note ds = dec_str_plain [OF ek p]
    have "ndigits C - k \<le> max 1 l"
    proof (cases "l + k = 0")
      case True
      then have "C = 0" using cd(1) by simp
      then show ?thesis by (simp add: ndigits_zero)
    next
      case False
      then have "0 < l + k" by simp
      from ndigits_le [OF cd(1) this] show ?thesis by simp
    qed
    then show ?thesis using ds by (simp add: C_def)
  qed
  have kS: "k \<le> nat S" "k = nat (- expo v)" using ks by (simp_all add: s_def k_def)
  show ?thesis
    using gen dr(2-5) lo hi val can full' shape full kS
    by (intro exI [of _ v]) (simp add: s_def l_def)
qed

text \<open>
  A \<open>numeric(5,2)\<close> column with the draws 12 and 50, and with the draws 19 and 57.
\<close>

lemma amount_col:
  "numeric_column \<lparr>name = ''amount'', type = ''numeric'', lens = ''5,2''\<rparr> 5 2"
  by code_simp

lemma amount_draws:
  "(12, affine_rng 38 50) = (if (0::int) < 5 - 2 then randint 0 (10 ^ nat (5 - 2) - 1) (affine_rng 38 12) else (0, affine_rng 38 12))"
  "(50, affine_rng 38 88) = (if (0::int) < 2 then randint 0 (10 ^ nat 2 - 1) (snd (12::int, affine_rng 38 50)) else (0, snd (12::int, affine_rng 38 50)))"
  "(19, affine_rng 38 57) = (if (0::int) < 5 - 2 then randint 0 (10 ^ nat (5 - 2) - 1) (affine_rng 38 19) else (0, affine_rng 38 19))"
  "(57, affine_rng 38 95) = (if (0::int) < 2 then randint 0 (10 ^ nat 2 - 1) (snd (19::int, affine_rng 38 57)) else (0, snd (19::int, affine_rng 38 57)))"
  by (simp_all add: randint_affine)

lemma amount_value:
  "decimal_random 5 2 (affine_rng 38 12) = Inr (\<lparr>coeff = 125, expo = - 1\<rparr>, affine_rng 38 88)"
proof -
  from decimal_random_value(1) [OF _ _ _ _ amount_draws(1) amount_draws(2)]
  obtain v where run: "decimal_random 5 2 (affine_rng 38 12) = Inr (v, affine_rng 38 88)"
    and lo: "- 2 \<le> expo v" and hi: "expo v \<le> 0"
    and val: "int (coeff v) * 10 ^ nat (2 + expo v) = 1250"
    and can: "expo v = 0 \<or> coeff v mod 10 \<noteq> 0"
    by auto
  consider "expo v = - 2" | "expo v = - 1" | "expo v = 0" using lo hi by linarith
  then have "coeff v = 125 \<and> expo v = - 1"
  proof cases
    case 1
    then have "coeff v = 1250" using val by simp
    then show ?thesis using can 1 by simp
  next
    case 2
    then show ?thesis using val by simp
  next
    case 3
    then have "int (coeff v) * 100 = 1250" using val by simp
    then show ?thesis by presburger
  qed
  then have "v = \<lparr>coeff = 125, expo = - 1\<rparr>" by (cases v) simp
  then show ?thesis using run by simp
qed

lemma amount_text: "dec_str \<lparr>coeff = 125, expo = - 1\<rparr> = ''12.5''"
  by (simp add: dec_str_def Let_def str_nat.simps digit_char_def digits_def)

text \<open>
  The statement that every value has exactly \<open>S\<close> digits after the point fails on the
  first of the two: the whole part 12 and the fractional part 50 give the decimal
  \<open>12.5\<close>, whose text has one digit after the point where the scale is 2.
\<close>

theorem trailing_zero_dropped:
  "randint 0 999 (affine_rng 38 12) = (12, affine_rng 38 50)
   \<and> randint 0 99 (affine_rng 38 50) = (50, affine_rng 38 88)
   \<and> generate_random env0 \<lparr>name = ''amount'', type = ''numeric'', lens = ''5,2''\<rparr> (affine_rng 38 12)
       = Inr (VDecimal \<lparr>coeff = 125, expo = - 1\<rparr>, affine_rng 38 88)
   \<and> to_sql_literal str_nat (VDecimal \<lparr>coeff = 125, expo = - 1\<rparr>) = ''12.5''
   \<and> frac_digits ''12.5'' = 1"
  using generate_random_numeric [OF amount_col, of env0 "affine_rng 38 12"]
  by (simp add: amount_value amount_text randint_affine frac_digits_def)

theorem numeric_value_digits_witness:
  "numeric_column \<lparr>name = ''amount'', type = ''numeric'', lens = ''5,2''\<rparr> 5 2
   \<and> randint 0 999 (affine_rng 38 19) = (19, affine_rng 38 57)
   \<and> randint 0 99 (affine_rng 38 57) = (57, affine_rng 38 95)
   \<and> (\<exists>v. generate_random env0 \<lparr>name = ''amount'', type = ''numeric'', lens = ''5,2''\<rparr> (affine_rng 38 12)
            = Inr (VDecimal v, affine_rng 38 88)
          \<and> - 2 \<le> expo v \<and> expo v \<noteq> - 2
          \<and> frac_digits (dec_str v) = nat (- expo v) \<and> whole_digits (dec_str v) \<le> 3)
   \<and> (\<exists>v. generate_random env0 \<lparr>name = ''amount'', type = ''numeric'', lens = ''5,2''\<rparr> (affine_rng 38 19)
            = Inr (VDecimal v, affine_rng 38 95)
          \<and> int (coeff v) = 1957 \<and> expo v = - 2
          \<and> frac_digits (dec_str v) = 2 \<and> whole_digits (dec_str v) \<le> 3)"
proof -
  have a: "\<exists>v. generate_random env0 \<lparr>name = ''amount'', type = ''numeric'', lens = ''5,2''\<rparr> (affine_rng 38 12)
            = Inr (VDecimal v, affine_rng 38 88)
          \<and> - 2 \<le> expo v \<and> expo v \<noteq> - 2
          \<and> frac_digits (dec_str v) = nat (- expo v) \<and> whole_digits (dec_str v) \<le> 3"
    using numeric_value_digits [OF amount_col _ _ _ _ amount_draws(1) amount_draws(2), of env0]
    by auto
  have b: "\<exists>v. generate_random env0 \<lparr>name = ''amount'', type = ''numeric'', lens = ''5,2''\<rparr> (affine_rng 38 19)
            = Inr (VDecimal v, affine_rng 38 95)
          \<and> int (coeff v) = 1957 \<and> expo v = - 2
          \<and> frac_digits (dec_str v) = 2 \<and> whole_digits (dec_str v) \<le> 3"
    using numeric_value_digits [OF amount_col _ _ _ _ amount_draws(3) amount_draws(4), of env0]
    by auto
  have c: "randint 0 999 (affine_rng 38 19) = (19, affine_rng 38 57)
      \<and> randint 0 99 (affine_rng 38 57) = (57, affine_rng 38 95)"
    by (simp add: randint_affine)
  show ?thesis using amount_col a b c by blast
qed

section \<open>Integer literals\<close>

text \<open>
  \<open>int\<close> skips blanks around a literal but not the separators that \<open>str.strip\<close> removes,
  and it refuses a literal of more than 4300 digits.
\<close>

lemma py_int_separator: "py_int [CHR ''7'', CHR 0x1F] = Inl ValueError"
  by code_simp

lemma py_int_strips_blank: "py_int '' 7 '' = Inr 7"
  by code_simp

lemma py_int_digit_limit:
  assumes "4300 < n"
  shows "py_int (replicate n CHR ''1'') = Inl ValueError"
proof -
  obtain m where n: "n = Suc m" using assms by (cases n) simp_all
  have sp: "\<not> int_space CHR ''1''" by (simp add: int_space_def)
  have dg: "is_digit CHR ''1''" by (simp add: is_digit_def digits_def)
  have r: "rev (replicate n CHR ''1'') = replicate n CHR ''1''" by simp
  have d: "dropWhile int_space (replicate n CHR ''1'') = replicate n CHR ''1''"
    using sp by (simp add: n)
  have t: "rev (dropWhile int_space (rev (dropWhile int_space (replicate n CHR ''1''))))
             = CHR ''1'' # replicate m CHR ''1''"
    by (simp only: d r) (simp add: n)
  have "length (filter is_digit (CHR ''1'' # replicate m CHR ''1'')) = n"
    using dg by (simp add: n)
  then show ?thesis
    using assms by (simp only: py_int_def t Let_def) (simp add: max_str_digits_def)
qed

section \<open>Timestamps as keys\<close>

text \<open>
  Two timestamps that differ only in their microseconds are different key values: both
  rows are accepted, although the two values print the same SQL literal.
\<close>

lemma timestamp_col:
  "generate_random env \<lparr>name = n, type = ''timestamp'', lens = ''''\<rparr> g
     = Inr (VDateTime (fake_date_time env (g 0)), \<lambda>i. g (Suc i))"
  by (simp add: generate_random_def Let_def t_norm_def any_in_def lower_def lower_char_def
      ascii_uppercase_def ascii_lowercase_def strip_def lstrip_def rstrip_def is_space_def draw_def)

lemma timestamp_keys_to_the_microsecond:
  "gen_parent_rows env0 [\<lparr>name = ''ts'', type = ''timestamp'', lens = ''''\<rparr>] [''ts''] 2 [] [] (affine_rng 1 5)
     = Inr ([[(''ts'', VDateTime (DateTime 1970 1 1 0 0 0 5))], [(''ts'', VDateTime (DateTime 1970 1 1 0 0 0 6))]],
            [[VDateTime (DateTime 1970 1 1 0 0 0 6)], [VDateTime (DateTime 1970 1 1 0 0 0 5)]],
            affine_rng 1 7)"
  "to_sql_literal str_nat (VDateTime (DateTime 1970 1 1 0 0 0 5))
     = to_sql_literal str_nat (VDateTime (DateTime 1970 1 1 0 0 0 6))"
  by (simp_all add: gen_parent_rows_numeral try_row_numeral timestamp_col env0_def tuple_in_def
      affine_rng_def fun_eq_iff)

section \<open>Varying-length character columns\<close>

text \<open>The string of letters the library builds, draw by draw.\<close>

lemma random_letters_spec:
  "random_letters n g = (map (\<lambda>i. ascii_letters ! (g i mod 52)) [0..<n], \<lambda>i. g (i + n))"
proof (induction n arbitrary: g)
  case 0
  then show ?case by simp
next
  case (Suc n)
  have "[0..<Suc n] = 0 # map Suc [0..<n]" by (simp add: upt_conv_Cons map_Suc_upt del: upt_Suc)
  then show ?case
    by (simp add: Suc draw_def Let_def comp_def del: upt_Suc)
qed

lemma ascii_letters_nth: "k < 52 \<Longrightarrow> ascii_letters ! k \<in> set ascii_letters"
  by (rule nth_mem) (simp add: ascii_letters_def ascii_lowercase_def ascii_uppercase_def)

lemma char_up_to_spec:
  fixes n :: int
  defines "m \<equiv> max 1 (min n 255)"
  shows "char_up_to n g =
           (map (\<lambda>i. ascii_letters ! (g (Suc i) mod 52)) [0..<Suc (g 0 mod nat m)],
            \<lambda>i. g (i + Suc (Suc (g 0 mod nat m))))"
proof -
  have m1: "1 \<le> m" by (simp add: m_def)
  have "nat (1 + int (g 0 mod nat (m - 1 + 1))) = Suc (g 0 mod nat m)" by simp
  then show ?thesis
    unfolding char_up_to_def pystr_def randint_def draw_def Let_def split_def m_def [symmetric]
    by (simp add: random_letters_spec)
qed

text \<open>
  Claim C10, as the program has it. For a column decided by the rule for \<open>varchar\<close>,
  \<open>nvarchar\<close> and \<open>varying\<close> (its normalized type contains one of the three words and no
  word of an earlier rule), with declared maximum length \<open>maxLen\<close> (the first component of
  the length spec, 32 when there is none), the generator returns a string of letters. Its
  length is drawn after the clamp: with \<open>n = min(max(maxLen, 1), 255)\<close>, the next draw picks
  one of the \<open>n\<close> lengths \<open>1, ..., n\<close>, and the draws after it pick the letters. So the length
  lies in \<open>[1, n]\<close>, is at most 255 when \<open>maxLen\<close> exceeds 255 and exactly 1 when \<open>maxLen\<close> is
  at most 1; and every length of \<open>[1, n]\<close> is the length of the string for some random
  source.
\<close>

theorem varchar_length_drawn_after_clamp:
  fixes env :: "'f env"
  assumes col: "varchar_column c" and len: "first_len (strip (lens c)) 32 = Inr maxLen"
  shows "(\<exists>s g'. generate_random env c g = Inr (VStr s, g')
            \<and> int (length s) = 1 + int (g 0 mod nat (min (max maxLen 1) 255))
            \<and> 1 \<le> length s \<and> int (length s) \<le> min (max maxLen 1) 255
            \<and> s = map (\<lambda>i. ascii_letters ! (g (Suc i) mod 52)) [0..<length s]
            \<and> set s \<subseteq> set ascii_letters
            \<and> g' = (\<lambda>i. g (i + Suc (length s)))
            \<and> (255 < maxLen \<longrightarrow> length s \<le> 255)
            \<and> (maxLen \<le> 1 \<longrightarrow> length s = 1))
       \<and> (\<forall>k. 1 \<le> k \<and> int k \<le> min (max maxLen 1) 255 \<longrightarrow>
             (\<exists>s g'. generate_random env c (\<lambda>i. k - 1) = Inr (VStr s, g') \<and> length s = k))"
proof -
  define n where "n = min (max maxLen 1) 255"
  have nm: "max 1 (min maxLen 255) = n" by (simp add: n_def)
  have n1: "1 \<le> n" "n \<le> 255" by (simp_all add: n_def)
  have run: "generate_random env c h =
      Inr (VStr (map (\<lambda>i. ascii_letters ! (h (Suc i) mod 52)) [0..<Suc (h 0 mod nat n)]),
           \<lambda>i. h (i + Suc (Suc (h 0 mod nat n))))" for h
    using generate_random_varchar [OF col len, of env h] char_up_to_spec [of maxLen h]
    by (simp add: nm)
  define s where "s = map (\<lambda>i. ascii_letters ! (g (Suc i) mod 52)) [0..<Suc (g 0 mod nat n)]"
  have ls: "length s = Suc (g 0 mod nat n)" by (simp add: s_def)
  have "g 0 mod nat n < nat n" using n1 by simp
  then have up: "int (length s) \<le> n" using ls by linarith
  have sub: "set s \<subseteq> set ascii_letters"
    unfolding s_def using ascii_letters_nth by auto
  have one: "length s = 1" if "maxLen \<le> 1"
  proof -
    have "n = 1" using that by (simp add: n_def)
    then show ?thesis using ls by simp
  qed
  have first: "\<exists>s g'. generate_random env c g = Inr (VStr s, g')
            \<and> int (length s) = 1 + int (g 0 mod nat n)
            \<and> 1 \<le> length s \<and> int (length s) \<le> n
            \<and> s = map (\<lambda>i. ascii_letters ! (g (Suc i) mod 52)) [0..<length s]
            \<and> set s \<subseteq> set ascii_letters
            \<and> g' = (\<lambda>i. g (i + Suc (length s)))
            \<and> (255 < maxLen \<longrightarrow> length s \<le> 255)
            \<and> (maxLen \<le> 1 \<longrightarrow> length s = 1)"
  proof (intro exI [of _ s] exI [of _ "\<lambda>i. g (i + Suc (length s))"] conjI)
    show "generate_random env c g = Inr (VStr s, \<lambda>i. g (i + Suc (length s)))"
      using run [of g] by (simp add: s_def)
    show "int (length s) = 1 + int (g 0 mod nat n)" using ls by simp
    show "1 \<le> length s" using ls by simp
    show "int (length s) \<le> n" by (rule up)
    show "s = map (\<lambda>i. ascii_letters ! (g (Suc i) mod 52)) [0..<length s]"
      by (simp only: ls) (simp only: s_def)
    show "set s \<subseteq> set ascii_letters" by (rule sub)
    show "(\<lambda>i. g (i + Suc (length s))) = (\<lambda>i. g (i + Suc (length s)))" by (rule refl)
    show "255 < maxLen \<longrightarrow> length s \<le> 255" using up n1 by linarith
    show "maxLen \<le> 1 \<longrightarrow> length s = 1" using one by blast
  qed
  have every: "\<exists>s g'. generate_random env c (\<lambda>i. k - 1) = Inr (VStr s, g') \<and> length s = k"
    if k: "1 \<le> k \<and> int k \<le> n" for k :: nat
  proof -
    have "k - 1 < nat n" using k by linarith
    then have "(k - 1) mod nat n = k - 1" by simp
    then show ?thesis using run [of "\<lambda>i. k - 1"] k by simp
  qed
  show ?thesis using first every unfolding n_def by blast
qed

text \<open>
  A column declared \<open>varchar\<close> whose type text goes on with a column constraint is not such
  a column: \<open>constraint\<close> contains \<open>int\<close>, the rule for integers comes first, and the value
  is an integer, not a string.
\<close>

lemma constraint_col:
  "\<not> any_in [''bigint'', ''int8''] (t_norm \<lparr>name = ''code'', type = ''varchar CONSTRAINT code_nn NOT NULL'', lens = ''''\<rparr>)"
  "\<not> any_in [''smallint'', ''int2''] (t_norm \<lparr>name = ''code'', type = ''varchar CONSTRAINT code_nn NOT NULL'', lens = ''''\<rparr>)"
  "any_in [''integer'', ''int'', ''int4''] (t_norm \<lparr>name = ''code'', type = ''varchar CONSTRAINT code_nn NOT NULL'', lens = ''''\<rparr>)"
  "varchar_typed \<lparr>name = ''code'', type = ''varchar CONSTRAINT code_nn NOT NULL'', lens = ''''\<rparr>"
  "parse_schema_file [''CREATE TABLE item ('', ''  code varchar CONSTRAINT code_nn NOT NULL,'', '');'']
     = (Some ''item'', [\<lparr>name = ''code'', type = ''varchar CONSTRAINT code_nn NOT NULL'', lens = ''''\<rparr>])"
  by code_simp+

theorem varchar_with_constraint_gets_integer:
  "parse_schema_file [''CREATE TABLE item ('', ''  code varchar CONSTRAINT code_nn NOT NULL,'', '');'']
     = (Some ''item'', [\<lparr>name = ''code'', type = ''varchar CONSTRAINT code_nn NOT NULL'', lens = ''''\<rparr>])
   \<and> varchar_typed \<lparr>name = ''code'', type = ''varchar CONSTRAINT code_nn NOT NULL'', lens = ''''\<rparr>
   \<and> generate_random env0 \<lparr>name = ''code'', type = ''varchar CONSTRAINT code_nn NOT NULL'', lens = ''''\<rparr>
        (affine_rng 1 7) = Inr (VInt 7, affine_rng 1 8)"
  using constraint_col(4,5) generate_random_integer [OF constraint_col(1,2,3), of env0 "affine_rng 1 7"]
  by (simp add: int_between_def randint_affine)

text \<open>
  A \<open>VARCHAR(300)\<close> column, whose strings have 236 letters for one source and 255 for
  another, and a \<open>character varying(0)\<close> column.
\<close>

theorem varchar_length_drawn_after_clamp_witness:
  "varchar_column \<lparr>name = ''code'', type = ''VARCHAR'', lens = ''300''\<rparr>
   \<and> first_len (strip (lens \<lparr>name = ''code'', type = ''VARCHAR'', lens = ''300''\<rparr>)) 32 = Inr 300
   \<and> (\<exists>s g'. generate_random env0 \<lparr>name = ''code'', type = ''VARCHAR'', lens = ''300''\<rparr> (\<lambda>i. 1000 + i)
                = Inr (VStr s, g') \<and> length s = 236 \<and> set s \<subseteq> set ascii_letters)
   \<and> (\<exists>s g'. generate_random env0 \<lparr>name = ''code'', type = ''VARCHAR'', lens = ''300''\<rparr> (\<lambda>i. 254)
                = Inr (VStr s, g') \<and> length s = 255)
   \<and> varchar_column \<lparr>name = ''c'', type = ''character varying'', lens = ''0''\<rparr>
   \<and> first_len (strip (lens \<lparr>name = ''c'', type = ''character varying'', lens = ''0''\<rparr>)) 32 = Inr 0
   \<and> (\<exists>s g'. generate_random env0 \<lparr>name = ''c'', type = ''character varying'', lens = ''0''\<rparr> (\<lambda>i. 1000 + i)
                = Inr (VStr s, g') \<and> length s = 1)"
proof -
  have h1: "varchar_column \<lparr>name = ''code'', type = ''VARCHAR'', lens = ''300''\<rparr>"
    by code_simp
  have h2: "first_len (strip (lens \<lparr>name = ''code'', type = ''VARCHAR'', lens = ''300''\<rparr>)) 32 = Inr 300"
    by code_simp
  have h3: "varchar_column \<lparr>name = ''c'', type = ''character varying'', lens = ''0''\<rparr>"
    by code_simp
  have h4: "first_len (strip (lens \<lparr>name = ''c'', type = ''character varying'', lens = ''0''\<rparr>)) 32 = Inr 0"
    by code_simp
  note a = varchar_length_drawn_after_clamp [OF h1 h2, of env0 "\<lambda>i. 1000 + i"]
  note b = varchar_length_drawn_after_clamp [OF h3 h4, of env0 "\<lambda>i. 1000 + i"]
  from a have a1: "\<exists>s g'. generate_random env0 \<lparr>name = ''code'', type = ''VARCHAR'', lens = ''300''\<rparr> (\<lambda>i. 1000 + i)
                = Inr (VStr s, g') \<and> length s = 236 \<and> set s \<subseteq> set ascii_letters"
    by auto
  from a have "\<forall>k. 1 \<le> k \<and> int k \<le> min (max 300 1) 255 \<longrightarrow>
             (\<exists>s g'. generate_random env0 \<lparr>name = ''code'', type = ''VARCHAR'', lens = ''300''\<rparr> (\<lambda>i. k - 1)
                = Inr (VStr s, g') \<and> length s = k)"
    by (rule conjunct2)
  then have "1 \<le> (255::nat) \<and> int 255 \<le> min (max 300 1) 255 \<longrightarrow>
             (\<exists>s g'. generate_random env0 \<lparr>name = ''code'', type = ''VARCHAR'', lens = ''300''\<rparr> (\<lambda>i. 255 - 1)
                = Inr (VStr s, g') \<and> length s = 255)"
    by (rule spec)
  then have a2: "\<exists>s g'. generate_random env0 \<lparr>name = ''code'', type = ''VARCHAR'', lens = ''300''\<rparr> (\<lambda>i. 254)
                = Inr (VStr s, g') \<and> length s = 255"
    by simp
  from b have b1: "\<exists>s g'. generate_random env0 \<lparr>name = ''c'', type = ''character varying'', lens = ''0''\<rparr> (\<lambda>i. 1000 + i)
                = Inr (VStr s, g') \<and> length s = 1"
    by auto
  show ?thesis using h1 h2 h3 h4 a1 a2 b1 by blast
qed

end
